theory Spec2Isabelle
  imports Main
begin

section \<open>Routing: bindings and \<open>BindingManager.resolveRoute\<close>\<close>

text \<open>
  The routing types of the repository.  An optional field of the TypeScript interfaces is
  an \<open>option\<close>; JavaScript numbers used as priorities are modelled as integers.
  \<open>RouteInput\<close> has exactly the fields of \<open>BindingMatch\<close>, so (TypeScript being
  structurally typed) it is the same type.
\<close>

datatype PeerKind = Dm | Group | Channel

record RoutePeer =
  kind :: PeerKind
  peerId :: string

record BindingMatch =
  channel :: string
  accountId :: "string option"
  peer :: "RoutePeer option"
  guildId :: "string option"
  teamId :: "string option"

type_synonym RouteInput = BindingMatch

record Binding =
  bindingId :: string
  agentId :: string
  match :: BindingMatch
  priority :: "int option"
  createdAt :: nat
  updatedAt :: nat

datatype MatchedBy = ByPeer | ByGuild | ByTeam | ByAccount | ByChannel | ByDefault

record RouteResult =
  routeAgentId :: string
  matchedBy :: MatchedBy
  binding :: "Binding option"

text \<open>JavaScript truthiness of a \<open>string | undefined\<close>: defined and not empty.\<close>

definition truthy :: "string option \<Rightarrow> bool" where
  "truthy s = (case s of None \<Rightarrow> False | Some v \<Rightarrow> v \<noteq> [])"

text \<open>\<open>a.priority ?? 100\<close>\<close>

definition effPriority :: "Binding \<Rightarrow> int" where
  "effPriority b = (case priority b of None \<Rightarrow> 100 | Some p \<Rightarrow> p)"

text \<open>
  \<open>listBindings\<close>: \<open>store.bindings.sort((a, b) => (a.priority ?? 100) - (b.priority ?? 100))\<close>.
  \<open>Array.prototype.sort\<close> is a stable sort, and the comparator orders by the key
  \<open>priority ?? 100\<close>, so the result is the stable sort of the stored list (which is in
  insertion order, \<open>createBinding\<close> pushing at the end) by that key.
\<close>

definition listBindings :: "Binding list \<Rightarrow> Binding list" where
  "listBindings store = sort_key effPriority store"

text \<open>The predicates handed to \<open>Array.prototype.find\<close> in the five tiers of the source.\<close>

definition peerPred :: "RoutePeer \<Rightarrow> Binding \<Rightarrow> bool" where
  "peerPred ip b =
     (case peer (match b) of None \<Rightarrow> False
      | Some bp \<Rightarrow> kind bp = kind ip \<and> peerId bp = peerId ip)"

definition guildPred :: "RouteInput \<Rightarrow> Binding \<Rightarrow> bool" where
  "guildPred input b = (guildId (match b) = guildId input)"

definition teamPred :: "RouteInput \<Rightarrow> Binding \<Rightarrow> bool" where
  "teamPred input b = (teamId (match b) = teamId input)"

definition accountPred :: "RouteInput \<Rightarrow> Binding \<Rightarrow> bool" where
  "accountPred input b =
     (accountId (match b) = accountId input \<and>
      peer (match b) = None \<and> \<not> truthy (guildId (match b)) \<and> \<not> truthy (teamId (match b)))"

definition channelPred :: "Binding \<Rightarrow> bool" where
  "channelPred b =
     ((accountId (match b) = Some ''*'' \<or> \<not> truthy (accountId (match b))) \<and>
      peer (match b) = None \<and> \<not> truthy (guildId (match b)) \<and> \<not> truthy (teamId (match b)))"

definition matched :: "MatchedBy \<Rightarrow> Binding \<Rightarrow> RouteResult" where
  "matched by b = \<lparr>routeAgentId = agentId b, matchedBy = by, binding = Some b\<rparr>"

definition resolveRoute :: "Binding list \<Rightarrow> RouteInput \<Rightarrow> string \<Rightarrow> RouteResult" where
  "resolveRoute store input defaultAgentId =
     (let bindings = listBindings store;
          channelBindings = filter (\<lambda>b. channel (match b) = channel input) bindings;
          peerMatch = (case peer input of None \<Rightarrow> None
                       | Some ip \<Rightarrow> List.find (peerPred ip) channelBindings);
          guildMatch = (if truthy (guildId input)
                        then List.find (guildPred input) channelBindings else None);
          teamMatch = (if truthy (teamId input)
                       then List.find (teamPred input) channelBindings else None);
          accountMatch = (if truthy (accountId input)
                          then List.find (accountPred input) channelBindings else None);
          channelMatch = List.find channelPred channelBindings
      in case peerMatch of Some b \<Rightarrow> matched ByPeer b
         | None \<Rightarrow>
        (case guildMatch of Some b \<Rightarrow> matched ByGuild b
         | None \<Rightarrow>
        (case teamMatch of Some b \<Rightarrow> matched ByTeam b
         | None \<Rightarrow>
        (case accountMatch of Some b \<Rightarrow> matched ByAccount b
         | None \<Rightarrow>
        (case channelMatch of Some b \<Rightarrow> matched ByChannel b
         | None \<Rightarrow>
           \<lparr>routeAgentId = defaultAgentId, matchedBy = ByDefault, binding = None\<rparr>)))))"

subsection \<open>The routing order as the specification words it\<close>

text \<open>
  The specification's reading of the router, kept apart from the code above: five tiers
  tried in order, each among the bindings of the input's channel, and inside a tier the
  binding with the lowest priority number, the earliest inserted among equals.  A field
  counts as set when it is present and not the empty string, which is the only
  distinction the source makes.
\<close>

datatype Tier = TPeer | TGuild | TTeam | TAccount | TChannel

definition unconstrained :: "Binding \<Rightarrow> bool" where
  "unconstrained b =
     (peer (match b) = None \<and> \<not> truthy (guildId (match b)) \<and> \<not> truthy (teamId (match b)))"

fun tierMatches :: "Tier \<Rightarrow> RouteInput \<Rightarrow> Binding \<Rightarrow> bool" where
  "tierMatches TPeer input b =
     (case peer input of None \<Rightarrow> False
      | Some ip \<Rightarrow> (case peer (match b) of None \<Rightarrow> False
                    | Some bp \<Rightarrow> kind bp = kind ip \<and> peerId bp = peerId ip))"
| "tierMatches TGuild input b = (truthy (guildId input) \<and> guildId (match b) = guildId input)"
| "tierMatches TTeam input b = (truthy (teamId input) \<and> teamId (match b) = teamId input)"
| "tierMatches TAccount input b =
     (truthy (accountId input) \<and> accountId (match b) = accountId input \<and> unconstrained b)"
| "tierMatches TChannel input b =
     ((accountId (match b) = Some ''*'' \<or> \<not> truthy (accountId (match b))) \<and> unconstrained b)"

fun tierLabel :: "Tier \<Rightarrow> MatchedBy" where
  "tierLabel TPeer = ByPeer"
| "tierLabel TGuild = ByGuild"
| "tierLabel TTeam = ByTeam"
| "tierLabel TAccount = ByAccount"
| "tierLabel TChannel = ByChannel"

text \<open>The candidates of a tier, in insertion order.\<close>

definition candidates :: "Binding list \<Rightarrow> RouteInput \<Rightarrow> Tier \<Rightarrow> Binding list" where
  "candidates store input t =
     filter (\<lambda>b. channel (match b) = channel input \<and> tierMatches t input b) store"

text \<open>
  The winner among candidates: the first, in insertion order, whose priority number no
  other candidate undercuts.
\<close>

definition pickBest :: "Binding list \<Rightarrow> Binding option" where
  "pickBest cs = List.find (\<lambda>c. list_all (\<lambda>c'. effPriority c \<le> effPriority c') cs) cs"

fun routeTiers :: "Tier list \<Rightarrow> Binding list \<Rightarrow> RouteInput \<Rightarrow> string \<Rightarrow> RouteResult" where
  "routeTiers [] store input defaultAgentId =
     \<lparr>routeAgentId = defaultAgentId, matchedBy = ByDefault, binding = None\<rparr>"
| "routeTiers (t # ts) store input defaultAgentId =
     (case pickBest (candidates store input t) of
        Some b \<Rightarrow> \<lparr>routeAgentId = agentId b, matchedBy = tierLabel t, binding = Some b\<rparr>
      | None \<Rightarrow> routeTiers ts store input defaultAgentId)"

definition routeSpec :: "Binding list \<Rightarrow> RouteInput \<Rightarrow> string \<Rightarrow> RouteResult" where
  "routeSpec store input defaultAgentId =
     routeTiers [TPeer, TGuild, TTeam, TAccount, TChannel] store input defaultAgentId"

subsection \<open>Example bindings\<close>

text \<open>Concrete bindings used to run the router: all on the \<open>telegram\<close> channel.\<close>

definition onTelegram :: BindingMatch where
  "onTelegram =
     \<lparr>channel = ''telegram'', accountId = None, peer = None, guildId = None, teamId = None\<rparr>"

definition mkBinding :: "string \<Rightarrow> string \<Rightarrow> BindingMatch \<Rightarrow> int option \<Rightarrow> Binding" where
  "mkBinding i a m p =
     \<lparr>bindingId = i, agentId = a, match = m, priority = p, createdAt = 0, updatedAt = 0\<rparr>"

definition peer42 :: RoutePeer where
  "peer42 = \<lparr>kind = Dm, peerId = ''42''\<rparr>"

definition exampleStore :: "Binding list" where
  "exampleStore =
     [mkBinding ''b1'' ''slow'' onTelegram (Some 200),
      mkBinding ''b2'' ''plain'' onTelegram None,
      mkBinding ''b3'' ''vip'' (onTelegram\<lparr>peer := Some peer42\<rparr>) (Some 500),
      mkBinding ''b4'' ''fast'' onTelegram (Some 50),
      mkBinding ''b5'' ''fast2'' onTelegram (Some 50)]"


section \<open>Sessions: \<open>SessionManager\<close>\<close>

text \<open>
  The session index is the JSON object \<open>store.sessions\<close>, keyed by \<open>sessionId\<close>.  A
  JavaScript object keeps its string keys in insertion order (the ids are UUIDs, never
  integer-like), and \<open>findBySessionKey\<close> depends on that order, so the index is an
  association list.  The random UUID and the clock reading are arguments.
\<close>

record SessionEntry =
  sessionId :: string
  sessionKey :: string
  sessionAgentId :: string
  title :: string
  sessionCreatedAt :: nat
  sessionUpdatedAt :: nat
  messageCount :: nat
  sessionChannel :: string

type_synonym SessionStore = "(string \<times> SessionEntry) list"

text \<open>\<open>obj[k] = v\<close>: an existing key keeps its place, a new key goes last.\<close>

fun objSet :: "string \<Rightarrow> 'v \<Rightarrow> (string \<times> 'v) list \<Rightarrow> (string \<times> 'v) list" where
  "objSet k v [] = [(k, v)]"
| "objSet k v (p # ps) = (if fst p = k then (k, v) # ps else p # objSet k v ps)"

definition objDelete :: "string \<Rightarrow> (string \<times> 'v) list \<Rightarrow> (string \<times> 'v) list" where
  "objDelete k ps = filter (\<lambda>p. fst p \<noteq> k) ps"

definition startsWith :: "string \<Rightarrow> string \<Rightarrow> bool" where
  "startsWith s p = (take (length p) s = p)"

definition inferChannel :: "string \<Rightarrow> string" where
  "inferChannel key =
     (if startsWith key ''telegram:'' then ''telegram''
      else if startsWith key ''web:'' then ''web''
      else if startsWith key ''cron:'' then ''cron''
      else if startsWith key ''discord:'' then ''discord''
      else if startsWith key ''slack:'' then ''slack''
      else ''websocket'')"

text \<open>Decimal digits of a number, for template strings such as \<open>Session ${n}\<close>.\<close>

fun showNat :: "nat \<Rightarrow> string" where
  "showNat n =
     (if n < 10 then [char_of (48 + n)] else showNat (n div 10) @ [char_of (48 + n mod 10)])"

text \<open>
  \<open>createSession(sessionKey, agentId, title?, channel?)\<close>; \<open>uuid\<close> is the value of
  \<open>randomUUID()\<close> and \<open>nowMs\<close> that of \<open>Date.now()\<close>.  No lookup by key precedes the
  insertion.
\<close>

definition createSession ::
  "SessionStore \<Rightarrow> string \<Rightarrow> string \<Rightarrow> string option \<Rightarrow> string option \<Rightarrow> string \<Rightarrow> nat
     \<Rightarrow> SessionEntry \<times> SessionStore" where
  "createSession store key agent ttl chan uuid nowMs =
     (let inferredChannel = (if truthy chan then the chan else inferChannel key);
          entry = \<lparr>sessionId = uuid, sessionKey = key, sessionAgentId = agent,
                   title = (if truthy ttl then the ttl
                            else ''Session '' @ showNat (length store + 1)),
                   sessionCreatedAt = nowMs, sessionUpdatedAt = nowMs, messageCount = 0,
                   sessionChannel = inferredChannel\<rparr>
      in (entry, objSet uuid entry store))"

definition getSession :: "SessionStore \<Rightarrow> string \<Rightarrow> SessionEntry option" where
  "getSession store sid = map_of store sid"

definition findBySessionKey :: "SessionStore \<Rightarrow> string \<Rightarrow> SessionEntry option" where
  "findBySessionKey store key = List.find (\<lambda>s. sessionKey s = key) (map snd store)"

definition getOrCreate ::
  "SessionStore \<Rightarrow> string \<Rightarrow> string \<Rightarrow> string option \<Rightarrow> string \<Rightarrow> nat
     \<Rightarrow> SessionEntry \<times> SessionStore" where
  "getOrCreate store key agent chan uuid nowMs =
     (case findBySessionKey store key of
        Some existing \<Rightarrow> (existing, store)
      | None \<Rightarrow> createSession store key agent None chan uuid nowMs)"

definition deleteSession :: "SessionStore \<Rightarrow> string \<Rightarrow> bool \<times> SessionStore" where
  "deleteSession store sid =
     (case map_of store sid of None \<Rightarrow> (False, store)
      | Some _ \<Rightarrow> (True, objDelete sid store))"

text \<open>
  The session a cron fire creates (\<open>Gateway.runCronJob\<close>): key \<open>cron:<jobId>\<close>, title the
  job's name or the first 40 characters of its message, channel \<open>cron\<close>.
\<close>

definition cronSessionTitle :: "string option \<Rightarrow> string \<Rightarrow> string" where
  "cronSessionTitle jobName message =
     (if truthy jobName then the jobName
      else ''Cron: '' @ take 40 message @ (if length message > 40 then ''...'' else []))"

definition cronFireSession ::
  "SessionStore \<Rightarrow> string \<Rightarrow> string option \<Rightarrow> string \<Rightarrow> string \<Rightarrow> string \<Rightarrow> nat
     \<Rightarrow> SessionEntry \<times> SessionStore" where
  "cronFireSession store jobId jobName message agent uuid nowMs =
     createSession store (''cron:'' @ jobId) agent
       (Some (cronSessionTitle jobName message)) (Some ''cron'') uuid nowMs"

text \<open>
  The child session of a subagent spawn (\<open>subagentSpawnTool.execute\<close>): key
  \<open>subagent:<runId>\<close>, agent \<open>default\<close>.
\<close>

definition spawnSession ::
  "SessionStore \<Rightarrow> string \<Rightarrow> string option \<Rightarrow> string \<Rightarrow> string \<Rightarrow> nat
     \<Rightarrow> SessionEntry \<times> SessionStore" where
  "spawnSession store runId label task uuid nowMs =
     createSession store (''subagent:'' @ runId) ''default''
       (Some (if truthy label then the label else ''Subagent: '' @ take 30 task @ ''...''))
       None uuid nowMs"

text \<open>The invariant of the specification: at most one session per \<open>sessionKey\<close>.\<close>

definition uniqueKeys :: "SessionStore \<Rightarrow> bool" where
  "uniqueKeys store = distinct (map (\<lambda>p. sessionKey (snd p)) store)"

section \<open>The agent runner: \<open>AgentRunner.run\<close>\<close>

subsection \<open>Strings\<close>

text \<open>
  \<open>String.prototype.trim\<close> on strings of 8-bit characters: the white space and line
  terminators below U+0100 are tab, line feed, vertical tab, form feed, carriage return,
  space and the no-break space.
\<close>

definition isSpace :: "char \<Rightarrow> bool" where
  "isSpace c = ((of_char c :: nat) \<in> set [9, 10, 11, 12, 13, 32, 160])"

definition trim :: "string \<Rightarrow> string" where
  "trim s = rev (dropWhile isSpace (rev (dropWhile isSpace s)))"

subsection \<open>Messages, tools and the outside world\<close>

datatype Role = SystemRole | UserRole | AssistantRole | ToolRole

text \<open>An element of \<open>tool_calls\<close> (its \<open>type\<close> is always \<open>function\<close>).\<close>

record ToolCallRef =
  callId :: string
  fnName :: string
  fnArguments :: string

record LLMMessage =
  role :: Role
  content :: string
  tool_call_id :: "string option"
  tool_calls :: "ToolCallRef list option"

record TranscriptMessage = LLMMessage +
  timestamp :: nat

text \<open>
  A tool call of a model response.  The \<open>input\<close> object is represented by its JSON text,
  so that \<open>JSON.stringify(tc.input)\<close> is the field itself.
\<close>

record ToolCall =
  tcId :: string
  tcName :: string
  tcInput :: string

record LLMResponse =
  respContent :: string
  respToolCalls :: "ToolCall list"

datatype Failure = AbortError | OtherError string

text \<open>
  The runner is suspended at every \<open>await\<close> (a model call, a tool execution).  What the
  rest of the process did to this runner and its session meanwhile: the messages steered in
  through \<open>inject\<close>, and the entries appended to the session's transcript through the
  session manager (as \<open>session_send\<close> and \<open>sendToSession\<close> do).
\<close>

record Interleaved =
  steered :: "string list"
  written :: "TranscriptMessage list"

text \<open>
  A tool: \<open>execute\<close> is given the input and the number of suspensions so far (so that it
  may answer differently each time); it throws or returns its output string.  The tool
  context is fixed during a run and is not an argument.
\<close>

record Tool =
  toolName :: string
  toolDescription :: string
  inputSchema :: string
  execute :: "string \<Rightarrow> nat \<Rightarrow> (Failure + string) \<times> Interleaved"

record ToolSchema =
  schemaName :: string
  schemaDescription :: string
  schemaParameters :: string

record Registry =
  builtinTools :: "Tool list"
  composioTools :: "Tool list"

definition SUBAGENT_DENIED_TOOLS :: "string list" where
  "SUBAGENT_DENIED_TOOLS = [''subagent_spawn'']"

text \<open>\<open>getAllTools(options?)\<close>, \<open>options?.isSubagent\<close> being the boolean argument.\<close>

definition getAllTools :: "Registry \<Rightarrow> bool \<Rightarrow> Tool list" where
  "getAllTools reg isSub =
     (let allTools = builtinTools reg @ composioTools reg
      in if isSub then filter (\<lambda>t. toolName t \<notin> set SUBAGENT_DENIED_TOOLS) allTools
         else allTools)"

text \<open>\<open>getToolByName\<close> calls \<open>getAllTools()\<close> with no options.\<close>

definition getToolByName :: "Registry \<Rightarrow> string \<Rightarrow> Tool option" where
  "getToolByName reg name = List.find (\<lambda>t. toolName t = name) (getAllTools reg False)"

definition getToolSchemas :: "Registry \<Rightarrow> bool \<Rightarrow> ToolSchema list" where
  "getToolSchemas reg isSub =
     map (\<lambda>t. \<lparr>schemaName = toolName t, schemaDescription = toolDescription t,
               schemaParameters = inputSchema t\<rparr>) (getAllTools reg isSub)"

text \<open>
  The environment of a run: the model client (\<open>llm.chat\<close>, given the number of
  suspensions so far, the conversation and the tool schemas), the clock, the tool registry.
\<close>

record Env =
  chat :: "nat \<Rightarrow> LLMMessage list \<Rightarrow> ToolSchema list \<Rightarrow> (Failure + LLMResponse) \<times> Interleaved"
  now :: "nat \<Rightarrow> nat"
  tools :: Registry

text \<open>
  How an awaited call of a run ended: \<open>llm.chat\<close> returned a response or threw,
  \<open>tool.execute\<close> returned its output or threw.
\<close>

datatype CallOutcome =
  ModelReturned LLMResponse | ModelThrew Failure | ToolReturned string | ToolThrew Failure

definition modelOutcome :: "Failure + LLMResponse \<Rightarrow> CallOutcome" where
  "modelOutcome r = (case r of Inl f \<Rightarrow> ModelThrew f | Inr resp \<Rightarrow> ModelReturned resp)"

text \<open>
  The runner object, with the transcript of its bound session.  \<open>tick\<close> counts the
  suspensions; \<open>chatLog\<close> records the conversation handed to each model call,
  \<open>executed\<close> the tool calls whose \<open>execute\<close> was invoked and \<open>trace\<close> how each
  awaited call ended, in order (all three only observed, never read by the run).
  \<open>skillsPrompt\<close> is the value of \<open>buildSkillsPrompt(this.skills)\<close>.
\<close>

record RunnerState =
  messages :: "LLMMessage list"
  injectedMessages :: "string list"
  isRunning :: bool
  boundSessionId :: "string option"
  isSubagent :: bool
  systemPrompt :: string
  skillsPrompt :: string
  extraSystemPrompt :: "string option"
  transcript :: "TranscriptMessage list"
  tick :: nat
  chatLog :: "LLMMessage list list"
  executed :: "ToolCall list"
  trace :: "CallOutcome list"

text \<open>The local variables of \<open>run\<close> that the loops update (next to \<open>iterations\<close>).\<close>

record Locals =
  finalResponse :: string
  emptyRetries :: nat

definition maxIterations :: nat where
  "maxIterations = 10"

text \<open>\<open>SessionManager.toMessages\<close> on one entry, and \<open>{ ...msg, timestamp: Date.now() }\<close>.\<close>

definition toMessage :: "TranscriptMessage \<Rightarrow> LLMMessage" where
  "toMessage m =
     \<lparr>role = role m, content = content m,
      tool_call_id = (if truthy (tool_call_id m) then tool_call_id m else None),
      tool_calls = tool_calls m\<rparr>"

definition stamp :: "nat \<Rightarrow> LLMMessage \<Rightarrow> TranscriptMessage" where
  "stamp t m =
     \<lparr>role = role m, content = content m, tool_call_id = tool_call_id m,
      tool_calls = tool_calls m, timestamp = t\<rparr>"

definition plainMsg :: "Role \<Rightarrow> string \<Rightarrow> LLMMessage" where
  "plainMsg r c = \<lparr>role = r, content = c, tool_call_id = None, tool_calls = None\<rparr>"

definition persistMessage :: "Env \<Rightarrow> LLMMessage \<Rightarrow> RunnerState \<Rightarrow> RunnerState" where
  "persistMessage env m w =
     (case boundSessionId w of None \<Rightarrow> w
      | Some _ \<Rightarrow> w\<lparr>transcript := transcript w @ [stamp (now env (tick w)) m]\<rparr>)"

text \<open>\<open>this.messages.push(m); this.persistMessage({ ...m, timestamp: Date.now() })\<close>\<close>

definition pushPersist :: "Env \<Rightarrow> LLMMessage \<Rightarrow> RunnerState \<Rightarrow> RunnerState" where
  "pushPersist env m w = persistMessage env m (w\<lparr>messages := messages w @ [m]\<rparr>)"

text \<open>What happened during a suspension reaches the runner and its transcript.\<close>

definition absorb :: "Interleaved \<Rightarrow> RunnerState \<Rightarrow> RunnerState" where
  "absorb io w =
     w\<lparr>injectedMessages := injectedMessages w @ steered io,
       transcript := (case boundSessionId w of None \<Rightarrow> transcript w
                      | Some _ \<Rightarrow> transcript w @ written io),
       tick := tick w + 1\<rparr>"

definition callLLM ::
  "Env \<Rightarrow> ToolSchema list \<Rightarrow> RunnerState \<Rightarrow> (Failure + LLMResponse) \<times> RunnerState" where
  "callLLM env schemas w =
     (case chat env (tick w) (messages w) schemas of
        (r, io) \<Rightarrow>
          (r, absorb io (w\<lparr>chatLog := chatLog w @ [messages w],
                           trace := trace w @ [modelOutcome r]\<rparr>)))"

definition interruptMsg :: "string \<Rightarrow> LLMMessage" where
  "interruptMsg injected = plainMsg UserRole (''[INTERRUPT] New message from user: '' @ injected)"

definition assistantWithCalls :: "LLMResponse \<Rightarrow> LLMMessage" where
  "assistantWithCalls resp =
     \<lparr>role = AssistantRole, content = respContent resp, tool_call_id = None,
      tool_calls = Some (map (\<lambda>tc. \<lparr>callId = tcId tc, fnName = tcName tc,
                                     fnArguments = tcInput tc\<rparr>) (respToolCalls resp))\<rparr>"

definition toolMsg :: "ToolCall \<Rightarrow> string \<Rightarrow> LLMMessage" where
  "toolMsg tc c = \<lparr>role = ToolRole, content = c, tool_call_id = Some (tcId tc), tool_calls = None\<rparr>"

text \<open>The \<open>for (const toolCall of response.toolCalls)\<close> loop, the same in both phases.\<close>

fun executeTools :: "Env \<Rightarrow> ToolCall list \<Rightarrow> RunnerState \<Rightarrow> Failure option \<times> RunnerState" where
  "executeTools env [] w = (None, w)"
| "executeTools env (tc # tcs) w =
     (case getToolByName (tools env) (tcName tc) of
        None \<Rightarrow>
          executeTools env tcs
            (pushPersist env (toolMsg tc (''Error: Unknown tool '' @ tcName tc)) w)
      | Some tool \<Rightarrow>
          (case execute tool (tcInput tc) (tick w) of
             (Inl f, io) \<Rightarrow>
               (Some f, absorb io (w\<lparr>executed := executed w @ [tc],
                                    trace := trace w @ [ToolThrew f]\<rparr>))
           | (Inr output, io) \<Rightarrow>
               executeTools env tcs
                 (pushPersist env (toolMsg tc output)
                    (absorb io (w\<lparr>executed := executed w @ [tc],
                                  trace := trace w @ [ToolReturned output]\<rparr>)))))"

subsection \<open>The main loop\<close>

datatype LoopCtl = Continue | Break | Raise Failure

text \<open>
  The body of \<open>while (iterations < maxIterations)\<close> after \<open>iterations++\<close>: drain one
  injected message into the conversation, call the model, handle its response.
\<close>

definition drainInjected :: "RunnerState \<Rightarrow> RunnerState" where
  "drainInjected w =
     (case injectedMessages w of [] \<Rightarrow> w
      | injected # rest \<Rightarrow>
          w\<lparr>injectedMessages := rest, messages := messages w @ [interruptMsg injected]\<rparr>)"

definition mainStep ::
  "Env \<Rightarrow> ToolSchema list \<Rightarrow> Locals \<Rightarrow> RunnerState \<Rightarrow> LoopCtl \<times> Locals \<times> RunnerState" where
  "mainStep env schemas l w =
     (case callLLM env schemas (drainInjected w) of
        (Inl f, w2) \<Rightarrow> (Raise f, l, w2)
      | (Inr resp, w2) \<Rightarrow>
          (let l1 = (if respContent resp \<noteq> [] then l\<lparr>finalResponse := respContent resp\<rparr> else l)
           in if respToolCalls resp \<noteq> [] then
                (case executeTools env (respToolCalls resp)
                        (pushPersist env (assistantWithCalls resp) w2) of
                   (Some f, w3) \<Rightarrow> (Raise f, l1, w3)
                 | (None, w3) \<Rightarrow> (Continue, l1, w3))
              else if respContent resp \<noteq> [] then
                (let w3 = pushPersist env (plainMsg AssistantRole (respContent resp)) w2
                 in (if injectedMessages w3 \<noteq> [] then Continue else Break, l1, w3))
              else if emptyRetries l1 < 2 then
                (Continue, l1\<lparr>emptyRetries := emptyRetries l1 + 1\<rparr>, w2)
              else (if injectedMessages w2 \<noteq> [] then Continue else Break, l1, w2)))"

function mainLoop ::
  "Env \<Rightarrow> ToolSchema list \<Rightarrow> nat \<Rightarrow> Locals \<Rightarrow> RunnerState
     \<Rightarrow> Failure option \<times> nat \<times> Locals \<times> RunnerState" where
  "mainLoop env schemas iterations l w =
     (if iterations < maxIterations then
        (case mainStep env schemas l w of
           (Raise f, l', w') \<Rightarrow> (Some f, iterations + 1, l', w')
         | (Break, l', w') \<Rightarrow> (None, iterations + 1, l', w')
         | (Continue, l', w') \<Rightarrow> mainLoop env schemas (iterations + 1) l' w')
      else (None, iterations, l, w))"
  by pat_completeness auto
termination
  by (relation "measure (\<lambda>(env, schemas, iterations, l, w). maxIterations - iterations)") auto

subsection \<open>The drain phase after the loop\<close>

text \<open>
  The body of \<open>while (this.injectedMessages.length > 0 && iterations < maxIterations)\<close>
  after \<open>iterations++\<close>, for the queue \<open>injected # rest\<close>.
\<close>

definition postStep ::
  "Env \<Rightarrow> ToolSchema list \<Rightarrow> Locals \<Rightarrow> string \<Rightarrow> RunnerState
     \<Rightarrow> Failure option \<times> Locals \<times> RunnerState" where
  "postStep env schemas l injected w =
     (case callLLM env schemas (pushPersist env (interruptMsg injected) w) of
        (Inl f, w2) \<Rightarrow> (Some f, l, w2)
      | (Inr resp, w2) \<Rightarrow>
          (let l1 = (if respContent resp \<noteq> [] then l\<lparr>finalResponse := respContent resp\<rparr> else l);
               w3 = (if respContent resp \<noteq> []
                     then pushPersist env (plainMsg AssistantRole (respContent resp)) w2 else w2)
           in if respToolCalls resp \<noteq> [] then
                (case executeTools env (respToolCalls resp)
                        (pushPersist env (assistantWithCalls resp) w3) of
                   (r, w4) \<Rightarrow> (r, l1, w4))
              else (None, l1, w3)))"

function postLoop ::
  "Env \<Rightarrow> ToolSchema list \<Rightarrow> nat \<Rightarrow> Locals \<Rightarrow> RunnerState
     \<Rightarrow> Failure option \<times> nat \<times> Locals \<times> RunnerState" where
  "postLoop env schemas iterations l w =
     (case injectedMessages w of
        [] \<Rightarrow> (None, iterations, l, w)
      | injected # rest \<Rightarrow>
          if iterations < maxIterations then
            (case postStep env schemas l injected (w\<lparr>injectedMessages := rest\<rparr>) of
               (Some f, l', w') \<Rightarrow> (Some f, iterations + 1, l', w')
             | (None, l', w') \<Rightarrow> postLoop env schemas (iterations + 1) l' w')
          else (None, iterations, l, w))"
  by pat_completeness auto
termination
  by (relation "measure (\<lambda>(env, schemas, iterations, l, w). maxIterations - iterations)") auto

subsection \<open>\<open>run\<close>\<close>

datatype Source = FromUser | FromCron | FromSubagentAnnounce

text \<open>
  How a call of \<open>run\<close> ends: it calls \<open>onComplete\<close> with the final response and returns
  it; or it catches an \<open>AbortError\<close> and returns \<open>(aborted)\<close>; or it rethrows.
\<close>

datatype RunResult = Completed string | AbortedRun | Thrown string

fun returned :: "RunResult \<Rightarrow> string option" where
  "returned (Completed text) = Some text"
| "returned AbortedRun = Some ''(aborted)''"
| "returned (Thrown e) = None"

text \<open>The sync at the start of \<open>run\<close>.\<close>

definition syncTranscript :: "RunnerState \<Rightarrow> RunnerState" where
  "syncTranscript w =
     (case boundSessionId w of None \<Rightarrow> w
      | Some _ \<Rightarrow>
          (let fromDisk = map toMessage (transcript w)
           in if length fromDisk > length (messages w)
              then w\<lparr>messages := messages w @ drop (length (messages w)) fromDisk\<rparr>
              else w))"

definition fullSystemPrompt :: "RunnerState \<Rightarrow> string" where
  "fullSystemPrompt w =
     (if truthy (extraSystemPrompt w)
      then the (extraSystemPrompt w) @ [CHR 0x0A, CHR 0x0A] @ systemPrompt w @ skillsPrompt w
      else systemPrompt w @ skillsPrompt w)"

definition frameInput :: "Source \<Rightarrow> string \<Rightarrow> LLMMessage" where
  "frameInput source userMessage =
     (case source of
        FromCron \<Rightarrow> plainMsg UserRole
          (''[SCHEDULED TASK] Execute the following scheduled task and send the result to the user:''
             @ [CHR 0x0A, CHR 0x0A] @ userMessage)
      | FromSubagentAnnounce \<Rightarrow> plainMsg UserRole (''[SUBAGENT RESULT] '' @ userMessage)
      | FromUser \<Rightarrow> plainMsg UserRole userMessage)"

definition startRun :: "Env \<Rightarrow> string \<Rightarrow> Source \<Rightarrow> RunnerState \<Rightarrow> RunnerState" where
  "startRun env userMessage source w =
     (let w1 = syncTranscript (w\<lparr>isRunning := True\<rparr>);
          w2 = (if messages w1 = []
                then pushPersist env (plainMsg SystemRole (fullSystemPrompt w1)) w1 else w1)
      in pushPersist env (frameInput source userMessage) w2)"

definition caught :: "Failure \<Rightarrow> RunnerState \<Rightarrow> RunResult \<times> RunnerState" where
  "caught f w =
     ((case f of AbortError \<Rightarrow> AbortedRun | OtherError e \<Rightarrow> Thrown e), w\<lparr>isRunning := False\<rparr>)"

definition finish :: "Locals \<Rightarrow> RunnerState \<Rightarrow> RunResult \<times> RunnerState" where
  "finish l w =
     (Completed (if trim (finalResponse l) = [] then ''(done)'' else finalResponse l),
      w\<lparr>isRunning := False\<rparr>)"

definition run :: "Env \<Rightarrow> string \<Rightarrow> Source \<Rightarrow> RunnerState \<Rightarrow> RunResult \<times> RunnerState" where
  "run env userMessage source w =
     (let w1 = startRun env userMessage source w;
          toolSchemas = getToolSchemas (tools env) (isSubagent w1)
      in case mainLoop env toolSchemas 0 \<lparr>finalResponse = [], emptyRetries = 0\<rparr> w1 of
           (Some f, iterations, l, w2) \<Rightarrow> caught f w2
         | (None, iterations, l, w2) \<Rightarrow>
             (case postLoop env toolSchemas iterations l w2 of
                (Some f, iterations', l', w3) \<Rightarrow> caught f w3
              | (None, iterations', l', w3) \<Rightarrow> finish l' w3))"

subsection \<open>What a run observed of its calls\<close>

text \<open>
  Read off the \<open>trace\<close> of a run: the errors thrown by its awaited calls, and the
  responses the model gave it, both in order.
\<close>

fun thrownIn :: "CallOutcome list \<Rightarrow> Failure list" where
  "thrownIn [] = []"
| "thrownIn (ModelThrew f # es) = f # thrownIn es"
| "thrownIn (ToolThrew f # es) = f # thrownIn es"
| "thrownIn (ModelReturned resp # es) = thrownIn es"
| "thrownIn (ToolReturned out # es) = thrownIn es"

fun responsesIn :: "CallOutcome list \<Rightarrow> LLMResponse list" where
  "responsesIn [] = []"
| "responsesIn (ModelReturned resp # es) = resp # responsesIn es"
| "responsesIn (ModelThrew f # es) = responsesIn es"
| "responsesIn (ToolReturned out # es) = responsesIn es"
| "responsesIn (ToolThrew f # es) = responsesIn es"

text \<open>
  The content of the last response that had any (the empty string when none had): the
  value of \<open>finalResponse\<close> after these responses.
\<close>

definition lastContent :: "LLMResponse list \<Rightarrow> string" where
  "lastContent rs =
     (let contents = filter (\<lambda>c. c \<noteq> []) (map respContent rs)
      in if contents = [] then [] else last contents)"

text \<open>
  \<open>stoppedBy f new\<close>: among the calls \<open>new\<close> exactly one threw, the last one, and it
  threw \<open>f\<close>.  \<open>keeps l l' new\<close>: none of the calls \<open>new\<close> threw, and they took the
  locals from \<open>l\<close> to the final response of \<open>l'\<close>.
\<close>

definition stoppedBy :: "Failure \<Rightarrow> CallOutcome list \<Rightarrow> bool" where
  "stoppedBy f new =
     (thrownIn new = [f] \<and> new \<noteq> [] \<and> (last new = ModelThrew f \<or> last new = ToolThrew f))"

definition keeps :: "Locals \<Rightarrow> Locals \<Rightarrow> CallOutcome list \<Rightarrow> bool" where
  "keeps l l' new =
     (thrownIn new = [] \<and>
      finalResponse l' = (if lastContent (responsesIn new) = [] then finalResponse l
                          else lastContent (responsesIn new)))"

subsection \<open>Delivery by the gateway\<close>

text \<open>
  The \<open>onComplete\<close> callback of \<open>Gateway.processMessage\<close> and its \<open>catch\<close>: the calls of
  \<open>channels.send\<close> on the message's channel and session key that a finished run causes.
  \<open>calls\<close> are the tool calls collected by \<open>onToolCall\<close>.
\<close>

record ChannelReply =
  replyText :: string
  replyToolCalls :: "(string \<times> string) list option"

definition onComplete :: "(string \<times> string) list \<Rightarrow> string \<Rightarrow> ChannelReply list" where
  "onComplete calls text =
     (if trim text = ''NO_REPLY'' \<or> trim text = ''(done)'' then []
      else [\<lparr>replyText = text, replyToolCalls = Some calls\<rparr>])"

fun deliver :: "(string \<times> string) list \<Rightarrow> RunResult \<Rightarrow> ChannelReply list" where
  "deliver calls (Completed text) = onComplete calls text"
| "deliver calls AbortedRun = []"
| "deliver calls (Thrown e) = [\<lparr>replyText = ''Error: '' @ e, replyToolCalls = None\<rparr>]"

subsection \<open>Example environments\<close>

text \<open>
  A registry with the nine built-in tools of the source, in its order, none of which
  throws; \<open>session_send\<close> appends an assistant entry to the runner's own transcript, as
  it does when it targets the runner's session.  Models are scripts: the response to a
  call depends on the number of suspensions before it.
\<close>

definition quiet :: Interleaved where
  "quiet = \<lparr>steered = [], written = []\<rparr>"

definition quietTool :: "string \<Rightarrow> string \<Rightarrow> Tool" where
  "quietTool name out =
     \<lparr>toolName = name, toolDescription = [], inputSchema = [],
      execute = (\<lambda>inp n. (Inr out, quiet))\<rparr>"

definition sideNote :: TranscriptMessage where
  "sideNote = \<lparr>role = AssistantRole, content = ''side note'', tool_call_id = None,
                tool_calls = None, timestamp = 5\<rparr>"

definition sessionSendTool :: Tool where
  "sessionSendTool =
     \<lparr>toolName = ''session_send'', toolDescription = [], inputSchema = [],
      execute = (\<lambda>inp n. (Inr ''{\"success\":true}'', \<lparr>steered = [], written = [sideNote]\<rparr>))\<rparr>"

definition exampleRegistry :: Registry where
  "exampleRegistry =
     \<lparr>builtinTools =
        [quietTool ''bash'' ''a.txt'', quietTool ''read'' ''text'', quietTool ''write'' ''ok'',
         quietTool ''cron'' ''ok'', quietTool ''web_fetch'' ''page'',
         quietTool ''subagent_spawn'' ''{\"status\":\"accepted\"}'',
         quietTool ''telegram_send'' ''sent'', sessionSendTool, quietTool ''skill'' ''loaded''],
      composioTools = []\<rparr>"

definition scriptedEnv :: "(nat \<Rightarrow> LLMResponse) \<Rightarrow> Env" where
  "scriptedEnv script =
     \<lparr>chat = (\<lambda>n ms sch. (Inr (script n), quiet)), now = (\<lambda>n. 1000 + n),
      tools = exampleRegistry\<rparr>"

definition idleRunner :: "bool \<Rightarrow> string list \<Rightarrow> RunnerState" where
  "idleRunner isSub queue =
     \<lparr>messages = [], injectedMessages = queue, isRunning = False,
      boundSessionId = Some ''s1'', isSubagent = isSub, systemPrompt = ''SYS'',
      skillsPrompt = [], extraSystemPrompt = None, transcript = [], tick = 0,
      chatLog = [], executed = [], trace = []\<rparr>"

definition callOf :: "string \<Rightarrow> LLMResponse" where
  "callOf name =
     \<lparr>respContent = [], respToolCalls = [\<lparr>tcId = ''t1'', tcName = name, tcInput = ''{}''\<rparr>]\<rparr>"

definition sayText :: "string \<Rightarrow> LLMResponse" where
  "sayText c = \<lparr>respContent = c, respToolCalls = []\<rparr>"

text \<open>
  The \<open>write\<close> tool of the source on the inputs used below.  The model client parses
  the arguments of a tool call with \<open>JSON.parse\<close>, so the arguments \<open>null\<close> make the
  input \<open>null\<close>, and \<open>input.path\<close> throws a \<open>TypeError\<close> before the tool's own
  \<open>try\<close>.  On the input \<open>{}\<close> the tool returns \<open>Error: path is required\<close>; the
  example answers every other input in the same way.
\<close>

definition nullPathError :: string where
  "nullPathError = ''Cannot read properties of null (reading '' @ [CHR 0x27] @ ''path'' @ [CHR 0x27] @ '')''"

definition writeTool :: Tool where
  "writeTool =
     \<lparr>toolName = ''write'', toolDescription = [], inputSchema = [],
      execute = (\<lambda>inp n. if inp = ''null'' then (Inl (OtherError nullPathError), quiet)
                          else (Inr ''Error: path is required'', quiet))\<rparr>"

definition registryWithWrite :: Registry where
  "registryWithWrite =
     \<lparr>builtinTools =
        [quietTool ''bash'' ''a.txt'', quietTool ''read'' ''text'', writeTool,
         quietTool ''cron'' ''ok'', quietTool ''web_fetch'' ''page'',
         quietTool ''subagent_spawn'' ''{\"status\":\"accepted\"}'',
         quietTool ''telegram_send'' ''sent'', sessionSendTool, quietTool ''skill'' ''loaded''],
      composioTools = []\<rparr>"

definition envWithWrite :: "(nat \<Rightarrow> LLMResponse) \<Rightarrow> Env" where
  "envWithWrite script =
     \<lparr>chat = (\<lambda>n ms sch. (Inr (script n), quiet)), now = (\<lambda>n. 1000 + n),
      tools = registryWithWrite\<rparr>"

definition callWith :: "string \<Rightarrow> string \<Rightarrow> LLMResponse" where
  "callWith name inp =
     \<lparr>respContent = [], respToolCalls = [\<lparr>tcId = ''t1'', tcName = name, tcInput = inp\<rparr>]\<rparr>"

subsection \<open>The same environment with nothing written to the transcript from outside\<close>

text \<open>
  Used to state that a run does not read the transcript after its start: \<open>muteEnv env\<close>
  behaves as \<open>env\<close>, but nobody appends to the session's transcript during a suspension.
  \<open>sameView a b\<close>: the runner states \<open>a\<close> and \<open>b\<close> differ at most in the transcript.
\<close>

definition muteIO :: "Interleaved \<Rightarrow> Interleaved" where
  "muteIO io = io\<lparr>written := []\<rparr>"

definition muteTool :: "Tool \<Rightarrow> Tool" where
  "muteTool t =
     t\<lparr>execute := (\<lambda>inp n. case execute t inp n of (r, io) \<Rightarrow> (r, muteIO io))\<rparr>"

definition muteEnv :: "Env \<Rightarrow> Env" where
  "muteEnv env =
     env\<lparr>chat := (\<lambda>n ms sch. case chat env n ms sch of (r, io) \<Rightarrow> (r, muteIO io)),
         tools := \<lparr>builtinTools = map muteTool (builtinTools (tools env)),
                    composioTools = map muteTool (composioTools (tools env))\<rparr>\<rparr>"

definition sameView :: "RunnerState \<Rightarrow> RunnerState \<Rightarrow> bool" where
  "sameView a b = (b = a\<lparr>transcript := transcript b\<rparr>)"

definition resumedRunner :: RunnerState where
  "resumedRunner =
     (idleRunner False [])
       \<lparr>messages := [plainMsg SystemRole ''SYS'', plainMsg UserRole ''hi''],
        transcript := [stamp 1 (plainMsg SystemRole ''SYS''), stamp 2 (plainMsg UserRole ''hi''),
                       sideNote]\<rparr>"

text \<open>Scripts: one response first and another ever after; the same response always.\<close>

definition scriptThen :: "LLMResponse \<Rightarrow> LLMResponse \<Rightarrow> nat \<Rightarrow> LLMResponse" where
  "scriptThen first later n = (if n = 0 then first else later)"

definition always :: "LLMResponse \<Rightarrow> nat \<Rightarrow> LLMResponse" where
  "always r n = r"

section \<open>Subagents: \<open>SubagentRegistry\<close> and the spawn tool\<close>

datatype Cleanup = Delete | Keep

datatype OutcomeStatus = StatusOk | StatusError | StatusTimeout

record SubagentOutcome =
  status :: OutcomeStatus
  error :: "string option"

record SubagentRunRecord =
  runId :: string
  childSessionKey :: string
  requesterSessionKey :: string
  task :: string
  label :: "string option"
  cleanup :: Cleanup
  runCreatedAt :: nat
  startedAt :: "nat option"
  endedAt :: "nat option"
  outcome :: "SubagentOutcome option"
  archiveAtMs :: "nat option"
  cleanupCompletedAt :: "nat option"
  cleanupHandled :: "bool option"

text \<open>
  The registry: the \<open>Map\<close> of runs (insertion ordered) and whether the sweeper's
  interval timer is set.  The map of completion callbacks is left out: nothing in the
  repository calls \<open>onCompletion\<close>, so \<open>markCompleted\<close> never finds one.
\<close>

record SubagentRegistry =
  runs :: "(string \<times> SubagentRunRecord) list"
  sweeper :: bool

definition ARCHIVE_AFTER_MINUTES :: int where
  "ARCHIVE_AFTER_MINUTES = 60"

text \<open>JavaScript truthiness of a \<open>number | undefined\<close> that is a time stamp.\<close>

definition truthyNum :: "nat option \<Rightarrow> bool" where
  "truthyNum n = (case n of None \<Rightarrow> False | Some v \<Rightarrow> v \<noteq> 0)"

text \<open>
  \<open>register(params)\<close> at clock reading \<open>nowMs\<close>; \<open>archiveAfterMinutes\<close> is the optional
  parameter (the spawn tool passes none).
\<close>

definition register ::
  "SubagentRegistry \<Rightarrow> string \<Rightarrow> string \<Rightarrow> string \<Rightarrow> string \<Rightarrow> string option \<Rightarrow> Cleanup
     \<Rightarrow> int option \<Rightarrow> nat \<Rightarrow> SubagentRegistry" where
  "register reg rid childKey requesterKey tsk lbl cln archiveAfterMinutes nowMs =
     (let archiveMinutes = (case archiveAfterMinutes of None \<Rightarrow> ARCHIVE_AFTER_MINUTES
                            | Some m \<Rightarrow> m);
          archiveAt = (if archiveMinutes > 0 then Some (nowMs + nat (archiveMinutes * 60000))
                       else None);
          record = \<lparr>runId = rid, childSessionKey = childKey, requesterSessionKey = requesterKey,
                    task = tsk, label = lbl, cleanup = cln, runCreatedAt = nowMs,
                    startedAt = Some nowMs, endedAt = None, outcome = None,
                    archiveAtMs = archiveAt, cleanupCompletedAt = None,
                    cleanupHandled = Some False\<rparr>
      in \<lparr>runs = objSet rid record (runs reg),
          sweeper = (if truthyNum archiveAt then True else sweeper reg)\<rparr>)"

definition markStarted :: "SubagentRegistry \<Rightarrow> string \<Rightarrow> nat \<Rightarrow> SubagentRegistry" where
  "markStarted reg rid nowMs =
     (case map_of (runs reg) rid of None \<Rightarrow> reg
      | Some record \<Rightarrow> reg\<lparr>runs := objSet rid (record\<lparr>startedAt := Some nowMs\<rparr>) (runs reg)\<rparr>)"

definition markCompleted ::
  "SubagentRegistry \<Rightarrow> string \<Rightarrow> SubagentOutcome \<Rightarrow> nat \<Rightarrow> SubagentRegistry" where
  "markCompleted reg rid out nowMs =
     (case map_of (runs reg) rid of None \<Rightarrow> reg
      | Some record \<Rightarrow>
          reg\<lparr>runs := objSet rid (record\<lparr>endedAt := Some nowMs, outcome := Some out\<rparr>) (runs reg)\<rparr>)"

text \<open>\<open>finalizeCleanup(runId, didAnnounce)\<close>: it works on the registry alone.\<close>

definition finalizeCleanup :: "SubagentRegistry \<Rightarrow> string \<Rightarrow> bool \<Rightarrow> nat \<Rightarrow> SubagentRegistry" where
  "finalizeCleanup reg rid didAnnounce nowMs =
     (case map_of (runs reg) rid of None \<Rightarrow> reg
      | Some record \<Rightarrow>
          if cleanup record = Delete then reg\<lparr>runs := objDelete rid (runs reg)\<rparr>
          else if \<not> didAnnounce
          then reg\<lparr>runs := objSet rid (record\<lparr>cleanupHandled := Some False\<rparr>) (runs reg)\<rparr>
          else reg\<lparr>runs := objSet rid (record\<lparr>cleanupCompletedAt := Some nowMs\<rparr>) (runs reg)\<rparr>)"

text \<open>The sweeper's tick at clock reading \<open>nowMs\<close>.\<close>

definition sweep :: "SubagentRegistry \<Rightarrow> nat \<Rightarrow> SubagentRegistry" where
  "sweep reg nowMs =
     (let kept = filter (\<lambda>p. \<not> truthyNum (archiveAtMs (snd p)) \<or> the (archiveAtMs (snd p)) > nowMs)
                   (runs reg)
      in \<lparr>runs = kept, sweeper = (if kept = [] then False else sweeper reg)\<rparr>)"

definition getRun :: "SubagentRegistry \<Rightarrow> string \<Rightarrow> SubagentRunRecord option" where
  "getRun reg rid = map_of (runs reg) rid"

subsection \<open>A subagent run from spawn to cleanup\<close>

text \<open>
  The part of \<open>SessionManager.appendMessage\<close> that touches the session index
  (the transcript file is not part of it).
\<close>

definition appendMessageMeta :: "SessionStore \<Rightarrow> string \<Rightarrow> Role \<Rightarrow> string \<Rightarrow> nat \<Rightarrow> SessionStore" where
  "appendMessageMeta store sid r c nowMs =
     (case map_of store sid of None \<Rightarrow> store
      | Some s \<Rightarrow>
          (let s1 = s\<lparr>messageCount := messageCount s + 1, sessionUpdatedAt := nowMs\<rparr>;
               s2 = (if r = UserRole \<and> messageCount s1 = 1
                     then s1\<lparr>title := take 50 c @ (if length c > 50 then ''...'' else [])\<rparr>
                     else s1)
           in objSet sid s2 store))"

text \<open>
  The two stores a subagent run works on.  \<open>announced\<close> lists the runs handed to
  \<open>runAnnounceFlow\<close>, \<open>pendingSubagents\<close> the keys of the spawn tool's map.
\<close>

record SubagentWorld =
  sessions :: SessionStore
  registry :: SubagentRegistry
  pendingSubagents :: "string list"
  announced :: "string list"

text \<open>
  \<open>subagentSpawnTool.execute\<close> up to the start of the background run: the child session
  is created, the run registered and noted as pending.  \<open>rid\<close> and \<open>uuid\<close> are the two
  random UUIDs.
\<close>

definition spawn ::
  "SubagentWorld \<Rightarrow> string \<Rightarrow> string \<Rightarrow> string \<Rightarrow> string option \<Rightarrow> Cleanup \<Rightarrow> string \<Rightarrow> nat
     \<Rightarrow> SubagentWorld" where
  "spawn sw rid uuid tsk lbl cln requesterKey nowMs =
     sw\<lparr>sessions := snd (spawnSession (sessions sw) rid lbl tsk uuid nowMs),
        registry := register (registry sw) rid (''subagent:'' @ rid) requesterKey tsk lbl cln
                      None nowMs,
        pendingSubagents := pendingSubagents sw @ [rid]\<rparr>"

text \<open>
  \<open>runSubagentInBackground\<close>.  The child runner's run is given by its end: the entries
  it persisted to the child session (role and content) and whether it returned
  (\<open>Inr\<close>) or threw (\<open>Inl\<close> the message); \<open>endMs\<close> is the clock at that end.  Both
  branches call \<open>runAnnounceFlow\<close>, and the \<open>finally\<close> block ends with
  \<open>registry.finalizeCleanup(runId, true)\<close>.
\<close>

definition runSubagentInBackground ::
  "SubagentWorld \<Rightarrow> string \<Rightarrow> string \<Rightarrow> (Role \<times> string) list \<Rightarrow> string + string \<Rightarrow> nat \<Rightarrow> nat
     \<Rightarrow> SubagentWorld" where
  "runSubagentInBackground sw rid childSessionId persisted result startMs endMs =
     (let reg1 = markStarted (registry sw) rid startMs;
          sessions1 = foldl (\<lambda>st (r, c). appendMessageMeta st childSessionId r c endMs)
                        (sessions sw) persisted;
          out = (case result of Inr _ \<Rightarrow> \<lparr>status = StatusOk, error = None\<rparr>
                 | Inl e \<Rightarrow> \<lparr>status = StatusError, error = Some e\<rparr>);
          reg2 = markCompleted reg1 rid out endMs
      in sw\<lparr>sessions := sessions1,
            registry := finalizeCleanup reg2 rid True endMs,
            pendingSubagents := filter (\<lambda>k. k \<noteq> rid) (pendingSubagents sw),
            announced := announced sw @ [rid]\<rparr>)"

definition emptySubagentWorld :: SubagentWorld where
  "emptySubagentWorld =
     \<lparr>sessions = [], registry = \<lparr>runs = [], sweeper = False\<rparr>, pendingSubagents = [],
      announced = []\<rparr>"

text \<open>
  A whole subagent life: spawned at 1000 ms by \<open>telegram:7\<close>, the run persists three
  entries and returns at 5000 ms.
\<close>

definition subagentLife :: "Cleanup \<Rightarrow> SubagentWorld" where
  "subagentLife cln =
     runSubagentInBackground
       (spawn emptySubagentWorld ''r1'' ''u1'' ''look it up'' None cln ''telegram:7'' 1000)
       ''r1'' ''u1''
       [(SystemRole, ''SYS''), (UserRole, ''look it up''), (AssistantRole, ''found'')]
       (Inr ''found'') 1000 5000"

section \<open>The announce pipeline\<close>

subsection \<open>Composing the trigger messages\<close>

definition showInt :: "int \<Rightarrow> string" where
  "showInt i = (if i < 0 then ''-'' @ showNat (nat (- i)) else showNat (nat i))"

text \<open>\<open>lines.join('\n')\<close>\<close>

fun joinLines :: "string list \<Rightarrow> string" where
  "joinLines [] = []"
| "joinLines [l] = l"
| "joinLines (l # ls) = l @ [CHR 0x0A] @ joinLines ls"

text \<open>\<open>formatDuration(ms)\<close>; \<open>Math.floor\<close> of a quotient is integer division.\<close>

definition formatDuration :: "int \<Rightarrow> string" where
  "formatDuration ms =
     (let seconds = ms div 1000
      in if seconds < 60 then showInt seconds @ ''s''
         else (let minutes = seconds div 60; remainingSeconds = seconds mod 60
               in if minutes < 60 then showInt minutes @ ''m'' @ showInt remainingSeconds @ ''s''
                  else (let hours = minutes div 60; remainingMinutes = minutes mod 60
                        in showInt hours @ ''h'' @ showInt remainingMinutes @ ''m'')))"

record AnnounceOutcome =
  annStatus :: string
  annError :: "string option"

record AnnounceParams =
  apChildSessionKey :: string
  apChildRunId :: string
  apRequesterSessionKey :: string
  apRequesterChannel :: string
  apTask :: string
  apLabel :: "string option"
  apStartedAt :: "int option"
  apEndedAt :: "int option"
  apOutcome :: "AnnounceOutcome option"
  apCleanup :: Cleanup

record QueuedAnnounce =
  params :: AnnounceParams
  findings :: string
  enqueuedAt :: nat

definition truthyInt :: "int option \<Rightarrow> bool" where
  "truthyInt n = (case n of None \<Rightarrow> False | Some v \<Rightarrow> v \<noteq> 0)"

definition orElse :: "string option \<Rightarrow> string \<Rightarrow> string" where
  "orElse s d = (if truthy s then the s else d)"

definition durationText :: "AnnounceParams \<Rightarrow> string" where
  "durationText p =
     (if truthyInt (apEndedAt p) \<and> truthyInt (apStartedAt p)
      then formatDuration (the (apEndedAt p) - the (apStartedAt p)) else ''unknown'')"

definition taskLabelOf :: "AnnounceParams \<Rightarrow> string" where
  "taskLabelOf p = orElse (apLabel p) (take 50 (apTask p))"

definition outcomeStatus :: "AnnounceParams \<Rightarrow> string option" where
  "outcomeStatus p = map_option annStatus (apOutcome p)"

definition buildTriggerMessage :: "AnnounceParams \<Rightarrow> string \<Rightarrow> string" where
  "buildTriggerMessage p fnd =
     (let statusLabel =
            (if outcomeStatus p = Some ''ok'' then ''completed successfully''
             else if outcomeStatus p = Some ''error''
             then ''failed: '' @ orElse (annError (the (apOutcome p))) ''unknown error''
             else ''finished with unknown status'')
      in joinLines
           [''A background task \"'' @ taskLabelOf p @ ''\" just '' @ statusLabel @ ''.'',
            [],
            ''Findings:'',
            (if fnd \<noteq> [] then fnd else ''(no output)''),
            [],
            ''Duration: '' @ durationText p,
            [],
            ''Summarize this naturally for the user. Keep it brief (1-2 sentences).'',
            ''Flow it into the conversation naturally.'',
            ''Do not mention technical details like duration or that this was a background task.'',
            ''You can respond with NO_REPLY if no announcement is needed.''])"

text \<open>The three lines pushed for \<open>items[i]\<close>; \<open>n\<close> is \<open>i + 1\<close>.\<close>

definition taskBlock :: "nat \<Rightarrow> QueuedAnnounce \<Rightarrow> string list" where
  "taskBlock n item =
     [''--- Task '' @ showNat n @ '': \"'' @ taskLabelOf (params item) @ ''\" (''
        @ (if outcomeStatus (params item) = Some ''ok'' then ''completed'' else ''failed'')
        @ '') ---'',
      (if findings item \<noteq> [] then findings item else ''(no output)''),
      []]"

definition buildCollectedTriggerMessage :: "QueuedAnnounce list \<Rightarrow> string" where
  "buildCollectedTriggerMessage its =
     joinLines
       ([''['' @ showNat (length its) @ '' background tasks completed]'',
         [],
         ''Below are the results from multiple parallel tasks. Summarize them together for the user.'',
         ''Keep it concise and natural. Do not list them mechanically.'',
         []]
        @ concat (map (\<lambda>(i, item). taskBlock (i + 1) item) (enumerate 0 its))
        @ [''Summarize all findings together in a natural, conversational way.'',
           ''If user asked for a comparison table, create one.''])"

subsection \<open>Queues, timers and drains\<close>

text \<open>
  \<open>ANNOUNCE_QUEUES\<close> with the pending \<open>setTimeout\<close> timers of the process and the calls
  made to \<open>gatewayRef.triggerAgent\<close> (session key, channel, message).  A queue's
  \<open>debounceTimer\<close> is the id of the timer it holds.  \<open>gatewayRef\<close> says whether the
  gateway reference is set.
\<close>

record AnnounceQueue =
  items :: "QueuedAnnounce list"
  debounceTimer :: "nat option"
  draining :: bool

record Timer =
  timerId :: nat
  fireAt :: nat
  timerKey :: string
  timerChannel :: string

record AnnounceState =
  queues :: "(string \<times> AnnounceQueue) list"
  timers :: "Timer list"
  nextTimer :: nat
  gatewayRef :: bool
  triggerCalls :: "(string \<times> string \<times> string) list"

definition DEBOUNCE_MS :: nat where
  "DEBOUNCE_MS = 2000"

definition getOrCreateQueue :: "AnnounceState \<Rightarrow> string \<Rightarrow> AnnounceQueue" where
  "getOrCreateQueue st key =
     (case map_of (queues st) key of
        Some q \<Rightarrow> q
      | None \<Rightarrow> \<lparr>items = [], debounceTimer = None, draining = False\<rparr>)"

definition clearTimeout :: "nat option \<Rightarrow> Timer list \<Rightarrow> Timer list" where
  "clearTimeout h ts = (case h of None \<Rightarrow> ts | Some i \<Rightarrow> filter (\<lambda>t. timerId t \<noteq> i) ts)"

text \<open>\<open>enqueueAnnounce(params, findings)\<close> at clock reading \<open>nowMs\<close>.\<close>

definition enqueueAnnounce :: "AnnounceState \<Rightarrow> AnnounceParams \<Rightarrow> string \<Rightarrow> nat \<Rightarrow> AnnounceState" where
  "enqueueAnnounce st p fnd nowMs =
     (let key = apRequesterSessionKey p;
          queue = getOrCreateQueue st key;
          pushed = items queue @ [\<lparr>params = p, findings = fnd, enqueuedAt = nowMs\<rparr>];
          timer = \<lparr>timerId = nextTimer st, fireAt = nowMs + DEBOUNCE_MS, timerKey = key,
                   timerChannel = apRequesterChannel p\<rparr>
      in st\<lparr>queues := objSet key (queue\<lparr>items := pushed, debounceTimer := Some (nextTimer st)\<rparr>)
                         (queues st),
            timers := clearTimeout (debounceTimer queue) (timers st) @ [timer],
            nextTimer := nextTimer st + 1\<rparr>)"

text \<open>The \<open>finally\<close> block of \<open>drainQueue\<close>.\<close>

definition drainFinally :: "AnnounceState \<Rightarrow> string \<Rightarrow> AnnounceState" where
  "drainFinally st key =
     (case map_of (queues st) key of None \<Rightarrow> st
      | Some q \<Rightarrow>
          if items q = [] then st\<lparr>queues := objDelete key (queues st)\<rparr>
          else st\<lparr>queues := objSet key (q\<lparr>draining := False\<rparr>) (queues st)\<rparr>)"

text \<open>
  \<open>drainQueue(sessionKey, channel)\<close> from its start to the \<open>await\<close> of
  \<open>triggerAgent\<close>: the guard, the composed message, the call.  Without a gateway
  reference it returns at once, through the \<open>finally\<close> block.
\<close>

definition drainQueue :: "AnnounceState \<Rightarrow> string \<Rightarrow> string \<Rightarrow> AnnounceState" where
  "drainQueue st key chan =
     (case map_of (queues st) key of None \<Rightarrow> st
      | Some q \<Rightarrow>
          if draining q \<or> items q = [] then st
          else (let q1 = q\<lparr>draining := True, debounceTimer := None\<rparr>
                in if \<not> gatewayRef st
                   then drainFinally (st\<lparr>queues := objSet key q1 (queues st)\<rparr>) key
                   else (let msg = (case items q1 of
                                      [item] \<Rightarrow> buildTriggerMessage (params item) (findings item)
                                    | its \<Rightarrow> buildCollectedTriggerMessage its)
                         in st\<lparr>queues := objSet key (q1\<lparr>items := []\<rparr>) (queues st),
                               triggerCalls := triggerCalls st @ [(key, chan, msg)]\<rparr>)))"

subsection \<open>Time lines\<close>

text \<open>
  What happens to the pipeline from outside: a subagent completes (\<open>runAnnounceFlow\<close>
  enqueues its findings), or a pending \<open>triggerAgent\<close> call for a session key returns
  (the drain resumes in its \<open>finally\<close> block).  Timers fire on their own: before an
  event at time \<open>t\<close> every timer due by \<open>t\<close> has fired, in the order of their deadlines.
\<close>

datatype AnnounceEvent = Completion AnnounceParams string | TriggerReturned string

definition fireTimer :: "AnnounceState \<Rightarrow> Timer \<Rightarrow> AnnounceState" where
  "fireTimer st tm =
     drainQueue (st\<lparr>timers := filter (\<lambda>t. timerId t \<noteq> timerId tm) (timers st)\<rparr>)
       (timerKey tm) (timerChannel tm)"

definition fireTimers :: "nat \<Rightarrow> AnnounceState \<Rightarrow> AnnounceState" where
  "fireTimers t st = foldl fireTimer st (sort_key fireAt (filter (\<lambda>tm. fireAt tm \<le> t) (timers st)))"

fun applyEvent :: "nat \<Rightarrow> AnnounceEvent \<Rightarrow> AnnounceState \<Rightarrow> AnnounceState" where
  "applyEvent t (Completion p fnd) st = enqueueAnnounce st p fnd t"
| "applyEvent t (TriggerReturned key) st = drainFinally st key"

fun simulate :: "(nat \<times> AnnounceEvent) list \<Rightarrow> nat \<Rightarrow> AnnounceState \<Rightarrow> AnnounceState" where
  "simulate [] tEnd st = fireTimers tEnd st"
| "simulate ((t, ev) # rest) tEnd st = simulate rest tEnd (applyEvent t ev (fireTimers t st))"

subsection \<open>Two completions for one requester\<close>

definition announceStart :: AnnounceState where
  "announceStart = \<lparr>queues = [], timers = [], nextTimer = 0, gatewayRef = True, triggerCalls = []\<rparr>"

definition completionOf :: "string \<Rightarrow> string \<Rightarrow> int \<Rightarrow> int \<Rightarrow> AnnounceParams" where
  "completionOf rid lbl started ended =
     \<lparr>apChildSessionKey = ''subagent:'' @ rid, apChildRunId = rid,
      apRequesterSessionKey = ''telegram:7'', apRequesterChannel = ''telegram'',
      apTask = ''task of '' @ lbl, apLabel = Some lbl, apStartedAt = Some started,
      apEndedAt = Some ended, apOutcome = Some \<lparr>annStatus = ''ok'', annError = None\<rparr>,
      apCleanup = Delete\<rparr>"

definition taskA :: AnnounceParams where
  "taskA = completionOf ''r1'' ''A'' 100 1000"

definition taskB :: AnnounceParams where
  "taskB = completionOf ''r2'' ''B'' 100 2500"

definition taskB' :: AnnounceParams where
  "taskB' = completionOf ''r2'' ''B'' 100 4000"

text \<open>
  The second completion 1500 ms after the first; 3000 ms after it with the first
  \<open>triggerAgent\<close> call returning at once; 3000 ms after it with the first call (a whole
  turn of the parent agent) returning only at 10000 ms.
\<close>

definition withinWindow :: AnnounceState where
  "withinWindow =
     simulate [(1000, Completion taskA ''a-done''), (2500, Completion taskB ''b-done''),
               (4500, TriggerReturned ''telegram:7'')] 20000 announceStart"

definition apartQuick :: AnnounceState where
  "apartQuick =
     simulate [(1000, Completion taskA ''a-done''), (3000, TriggerReturned ''telegram:7''),
               (4000, Completion taskB' ''b-done''), (6000, TriggerReturned ''telegram:7'')]
       20000 announceStart"

definition apartSlow :: AnnounceState where
  "apartSlow =
     simulate [(1000, Completion taskA ''a-done''), (4000, Completion taskB' ''b-done''),
               (10000, TriggerReturned ''telegram:7'')] 20000 announceStart"

section \<open>Verification of the router\<close>

subsection \<open>Searching a stably sorted list\<close>

lemma find_is_first_of_filter:
  "List.find P xs = (case filter P xs of [] \<Rightarrow> None | y # _ \<Rightarrow> Some y)"
  by (induction xs) auto

lemma head_insort_key:
  "insort_key f x ys = (case ys of [] \<Rightarrow> [x]
     | y # ys' \<Rightarrow> if f x \<le> f y then x # ys else y # insort_key f x ys')"
  by (cases ys) auto

lemma pickBest_Nil: "pickBest [] = None"
  by (simp add: pickBest_def)

lemma pickBest_Cons:
  "pickBest (x # xs) =
     (if list_all (\<lambda>c'. effPriority x \<le> effPriority c') xs then Some x else pickBest xs)"
proof (cases "list_all (\<lambda>c'. effPriority x \<le> effPriority c') xs")
  case True
  then show ?thesis by (simp add: pickBest_def)
next
  case False
  then obtain w where w: "w \<in> set xs" "effPriority w < effPriority x"
    by (auto simp: list_all_iff not_le)
  have "List.find (\<lambda>c. list_all (\<lambda>c'. effPriority c \<le> effPriority c') (x # xs)) xs
      = List.find (\<lambda>c. list_all (\<lambda>c'. effPriority c \<le> effPriority c') xs) xs"
  proof (rule find_cong[OF refl])
    fix c assume "c \<in> set xs"
    show "list_all (\<lambda>c'. effPriority c \<le> effPriority c') (x # xs)
        = list_all (\<lambda>c'. effPriority c \<le> effPriority c') xs"
      using w by (fastforce simp: list_all_iff)
  qed
  with False show ?thesis by (simp add: pickBest_def)
qed

lemma pickBest_None_iff: "pickBest cs = None \<longleftrightarrow> cs = []"
proof (induction cs)
  case Nil
  show ?case by (simp add: pickBest_Nil)
next
  case (Cons x xs)
  show ?case
  proof (cases "list_all (\<lambda>c'. effPriority x \<le> effPriority c') xs")
    case True
    then show ?thesis by (simp add: pickBest_Cons)
  next
    case False
    then have "xs \<noteq> []" by auto
    with False Cons show ?thesis by (simp add: pickBest_Cons)
  qed
qed

lemma pickBest_min:
  "pickBest cs = Some r \<Longrightarrow> c \<in> set cs \<Longrightarrow> effPriority r \<le> effPriority c"
  unfolding pickBest_def by (auto simp: find_Some_iff list_all_iff)

lemma first_of_sort_key:
  "(case sort_key effPriority cs of [] \<Rightarrow> None | y # _ \<Rightarrow> Some y) = pickBest cs"
proof (induction cs)
  case Nil
  show ?case by (simp add: pickBest_Nil)
next
  case (Cons x xs)
  show ?case
  proof (cases "sort_key effPriority xs")
    case Nil
    then have "xs = []" by (metis length_0_conv length_sort)
    then show ?thesis by (simp add: pickBest_Cons pickBest_Nil)
  next
    case (Cons y ys)
    with Cons.IH have py: "pickBest xs = Some y" by simp
    have ymin: "\<forall>c \<in> set xs. effPriority y \<le> effPriority c"
      using py pickBest_min by blast
    have yin: "y \<in> set xs"
      by (metis Cons list.set_intros(1) set_sort)
    have "list_all (\<lambda>c'. effPriority x \<le> effPriority c') xs \<longleftrightarrow> effPriority x \<le> effPriority y"
      using ymin yin by (fastforce simp: list_all_iff)
    with Cons py show ?thesis by (simp add: pickBest_Cons)
  qed
qed

lemma find_listBindings:
  "List.find P (filter Q (listBindings store)) = pickBest (filter (\<lambda>b. Q b \<and> P b) store)"
proof -
  have "filter P (filter Q (sort_key effPriority store))
      = sort_key effPriority (filter (\<lambda>b. Q b \<and> P b) store)"
    by (simp add: filter_sort conj_commute)
  then show ?thesis
    unfolding listBindings_def find_is_first_of_filter[of P]
    by (simp add: first_of_sort_key)
qed

lemma resolveRoute_refines: "resolveRoute store input d = routeSpec store input d"
proof -
  let ?Q = "\<lambda>b. channel (match b) = channel input"
  have peerT: "(case peer input of None \<Rightarrow> None
        | Some ip \<Rightarrow> List.find (peerPred ip) (filter ?Q (listBindings store)))
      = pickBest (candidates store input TPeer)"
    by (cases "peer input")
       (simp_all add: find_listBindings candidates_def peerPred_def pickBest_Nil)
  have guildT: "(if truthy (guildId input)
        then List.find (guildPred input) (filter ?Q (listBindings store)) else None)
      = pickBest (candidates store input TGuild)"
    by (simp add: find_listBindings candidates_def guildPred_def pickBest_Nil)
  have teamT: "(if truthy (teamId input)
        then List.find (teamPred input) (filter ?Q (listBindings store)) else None)
      = pickBest (candidates store input TTeam)"
    by (simp add: find_listBindings candidates_def teamPred_def pickBest_Nil)
  have accountT: "(if truthy (accountId input)
        then List.find (accountPred input) (filter ?Q (listBindings store)) else None)
      = pickBest (candidates store input TAccount)"
    by (simp add: find_listBindings candidates_def accountPred_def unconstrained_def pickBest_Nil)
  have channelT: "List.find channelPred (filter ?Q (listBindings store))
      = pickBest (candidates store input TChannel)"
    by (simp add: find_listBindings candidates_def channelPred_def unconstrained_def)
  show ?thesis
    unfolding resolveRoute_def routeSpec_def Let_def peerT guildT teamT accountT channelT
    by (simp add: matched_def split: option.splits)
qed

lemma pickBest_mem: "pickBest cs = Some r \<Longrightarrow> r \<in> set cs"
  unfolding pickBest_def by (auto simp: find_Some_iff)

lemma routeTiers_winner:
  "matchedBy (routeTiers ts store input d) = tierLabel t \<Longrightarrow>
   \<exists>w. binding (routeTiers ts store input d) = Some w \<and>
       routeAgentId (routeTiers ts store input d) = agentId w \<and>
       pickBest (candidates store input t) = Some w"
proof (induction ts)
  case Nil
  then show ?case by (cases t) simp_all
next
  case (Cons u us)
  show ?case
  proof (cases "pickBest (candidates store input u)")
    case None
    with Cons show ?thesis by simp
  next
    case (Some b)
    with Cons.prems have "tierLabel u = tierLabel t" by simp
    then have "u = t" by (cases u; cases t) simp_all
    with Some show ?thesis by simp
  qed
qed

lemmas example_defs = exampleStore_def mkBinding_def onTelegram_def peer42_def


lemma resolveRoute_winner:
  assumes m: "matchedBy (resolveRoute store input d) = tierLabel t"
  shows "\<exists>w. binding (resolveRoute store input d) = Some w \<and>
             pickBest (candidates store input t) = Some w"
proof -
  from m have "matchedBy (routeTiers [TPeer, TGuild, TTeam, TAccount, TChannel] store input d)
      = tierLabel t"
    by (simp only: resolveRoute_refines routeSpec_def)
  from routeTiers_winner[OF this] show ?thesis
    by (simp only: resolveRoute_refines routeSpec_def) blast
qed


subsection \<open>The tier order (C7)\<close>

text \<open>
  Claim C7.  For every stored binding list and every route input, \<open>resolveRoute\<close>
  returns what the tiered reading returns: the first tier, in the order peer, guild,
  team, account, channel-default, that has a candidate among the bindings of the input's
  channel; inside that tier the candidate with the lowest priority number, the earliest
  inserted among equals; and the default agent with \<open>matchedBy = default\<close> when no
  tier has a candidate.
\<close>

theorem resolveRoute_tier_order:
  "resolveRoute store input defaultAgentId = routeSpec store input defaultAgentId"
  by (rule resolveRoute_refines)


theorem resolveRoute_tier_order_witness:
  "resolveRoute exampleStore (onTelegram\<lparr>peer := Some peer42\<rparr>) ''main''
     = \<lparr>routeAgentId = ''vip'', matchedBy = ByPeer,
        binding = Some (mkBinding ''b3'' ''vip'' (onTelegram\<lparr>peer := Some peer42\<rparr>) (Some 500))\<rparr>
   \<and> resolveRoute exampleStore onTelegram ''main''
     = \<lparr>routeAgentId = ''fast'', matchedBy = ByChannel,
        binding = Some (mkBinding ''b4'' ''fast'' onTelegram (Some 50))\<rparr>
   \<and> resolveRoute exampleStore (onTelegram\<lparr>channel := ''slack''\<rparr>) ''main''
     = \<lparr>routeAgentId = ''main'', matchedBy = ByDefault, binding = None\<rparr>"
  using resolveRoute_tier_order [of exampleStore "onTelegram\<lparr>peer := Some peer42\<rparr>" "''main''"]
        resolveRoute_tier_order [of exampleStore onTelegram "''main''"]
        resolveRoute_tier_order [of exampleStore "onTelegram\<lparr>channel := ''slack''\<rparr>" "''main''"]
  by (simp add: routeSpec_def candidates_def pickBest_def unconstrained_def truthy_def
      effPriority_def example_defs)

subsection \<open>Unset priorities (C10)\<close>

text \<open>
  Claim C10.  \<open>listBindings\<close> is the stable ascending sort by \<open>priority ?? 100\<close>:
  its result is sorted by that key and bindings with equal keys keep their insertion
  order.  When the router answers from tier \<open>t\<close>, the winner's key is at most the key
  of every candidate \<open>c\<close> of that tier: next to an unset-priority candidate the winner
  never has a priority above 100, and next to a candidate with priority \<open>p < 100\<close> the
  winner has a set priority of at most \<open>p\<close>, so it is not an unset-priority binding.
\<close>

theorem unset_priority_counts_as_100:
  "listBindings store = sort_key (\<lambda>b. case priority b of None \<Rightarrow> 100 | Some p \<Rightarrow> p) store
   \<and> sorted (map effPriority (listBindings store))
   \<and> filter (\<lambda>b. effPriority b = k) (listBindings store) = filter (\<lambda>b. effPriority b = k) store
   \<and> (matchedBy (resolveRoute store input d) = tierLabel t \<and> c \<in> set (candidates store input t)
      \<longrightarrow> (\<exists>w. binding (resolveRoute store input d) = Some w
              \<and> w \<in> set (candidates store input t)
              \<and> effPriority w \<le> effPriority c
              \<and> (priority c = None \<longrightarrow> (\<forall>q. priority w = Some q \<longrightarrow> q \<le> 100))
              \<and> (\<forall>p. priority c = Some p \<and> p < 100 \<longrightarrow> (\<exists>q. priority w = Some q \<and> q \<le> p))))"
proof (intro conjI impI)
  show "listBindings store = sort_key (\<lambda>b. case priority b of None \<Rightarrow> 100 | Some p \<Rightarrow> p) store"
    unfolding listBindings_def effPriority_def ..
  show "sorted (map effPriority (listBindings store))"
    unfolding listBindings_def by (rule sorted_sort_key)
  show "filter (\<lambda>b. effPriority b = k) (listBindings store)
      = filter (\<lambda>b. effPriority b = k) store"
    unfolding listBindings_def by (rule sort_key_stable)
next
  assume a: "matchedBy (resolveRoute store input d) = tierLabel t \<and>
             c \<in> set (candidates store input t)"
  then obtain w where w: "binding (resolveRoute store input d) = Some w"
      "pickBest (candidates store input t) = Some w"
    using resolveRoute_winner by blast
  have c: "c \<in> set (candidates store input t)" using a by simp
  have le: "effPriority w \<le> effPriority c"
    using pickBest_min[OF w(2) c] .
  have mem: "w \<in> set (candidates store input t)"
    using pickBest_mem[OF w(2)] .
  have p1: "priority c = None \<longrightarrow> (\<forall>q. priority w = Some q \<longrightarrow> q \<le> 100)"
    using le by (auto simp: effPriority_def)
  have p2: "\<forall>p. priority c = Some p \<and> p < 100 \<longrightarrow> (\<exists>q. priority w = Some q \<and> q \<le> p)"
    using le by (cases "priority w") (auto simp: effPriority_def)
  show "\<exists>w. binding (resolveRoute store input d) = Some w
              \<and> w \<in> set (candidates store input t)
              \<and> effPriority w \<le> effPriority c
              \<and> (priority c = None \<longrightarrow> (\<forall>q. priority w = Some q \<longrightarrow> q \<le> 100))
              \<and> (\<forall>p. priority c = Some p \<and> p < 100 \<longrightarrow> (\<exists>q. priority w = Some q \<and> q \<le> p))"
    using w(1) mem le p1 p2 by (intro exI[of _ w] conjI)
qed

theorem unset_priority_counts_as_100_witness:
  "binding (resolveRoute exampleStore onTelegram ''main'')
     = Some (mkBinding ''b4'' ''fast'' onTelegram (Some 50))
   \<and> binding (resolveRoute (take 2 exampleStore) onTelegram ''main'')
     = Some (mkBinding ''b2'' ''plain'' onTelegram None)"
proof -
  let ?un = "mkBinding ''b2'' ''plain'' onTelegram None"
  have m1: "matchedBy (resolveRoute exampleStore onTelegram ''main'') = tierLabel TChannel"
    by (simp add: resolveRoute_def listBindings_def matched_def channelPred_def truthy_def
        effPriority_def example_defs)
  have c1: "?un \<in> set (candidates exampleStore onTelegram TChannel)"
    by (simp add: candidates_def unconstrained_def truthy_def example_defs)
  have m2: "matchedBy (resolveRoute (take 2 exampleStore) onTelegram ''main'') = tierLabel TChannel"
    by (simp add: resolveRoute_def listBindings_def matched_def channelPred_def truthy_def
        effPriority_def example_defs)
  have c2: "?un \<in> set (candidates (take 2 exampleStore) onTelegram TChannel)"
    by (simp add: candidates_def unconstrained_def truthy_def example_defs)
  show ?thesis
    using unset_priority_counts_as_100 [of exampleStore 100 onTelegram "''main''" TChannel ?un] m1 c1
      unset_priority_counts_as_100 [of "take 2 exampleStore" 100 onTelegram "''main''" TChannel ?un] m2 c2
    by (simp add: resolveRoute_def listBindings_def matched_def channelPred_def truthy_def
        effPriority_def example_defs)
qed

section \<open>Verification of the session store (C2)\<close>

lemma keys_objSet_fresh:
  "k \<notin> (\<lambda>p. sessionKey (snd p)) ` set store \<Longrightarrow> sessionKey e = k \<Longrightarrow>
   distinct (map (\<lambda>p. sessionKey (snd p)) store) \<Longrightarrow>
   distinct (map (\<lambda>p. sessionKey (snd p)) (objSet u e store)) \<and>
   (\<lambda>p. sessionKey (snd p)) ` set (objSet u e store) \<subseteq> insert k ((\<lambda>p. sessionKey (snd p)) ` set store)"
proof (induction store)
  case Nil
  then show ?case by simp
next
  case (Cons p ps)
  then show ?case by (auto simp: image_iff)
qed

lemma findBySessionKey_None_iff:
  "findBySessionKey store k = None \<longleftrightarrow> k \<notin> (\<lambda>p. sessionKey (snd p)) ` set store"
  by (auto simp: findBySessionKey_def find_None_iff image_iff)

lemma createSession_fresh_key:
  assumes "uniqueKeys store" "findBySessionKey store k = None"
  shows "uniqueKeys (snd (createSession store k a t c u n))"
  using assms keys_objSet_fresh[of k store _ u]
  by (simp add: uniqueKeys_def createSession_def Let_def findBySessionKey_None_iff)

lemma objSet_append_fresh: "u \<notin> fst ` set store \<Longrightarrow> objSet u e store = store @ [(u, e)]"
  by (induction store) auto

lemma createSession_present_key:
  assumes "findBySessionKey store k \<noteq> None" "u \<notin> fst ` set store"
  shows "\<not> uniqueKeys (snd (createSession store k a t c u n))"
  using assms
  by (auto simp: uniqueKeys_def createSession_def Let_def findBySessionKey_None_iff
      objSet_append_fresh image_iff)

lemma createSession_key: "sessionKey (fst (createSession store k a t c u n)) = k"
  by (simp add: createSession_def Let_def)

lemma findBySessionKey_key: "findBySessionKey store k = Some e \<Longrightarrow> sessionKey e = k"
  by (auto simp: findBySessionKey_def find_Some_iff)

text \<open>
  Claim C2, as amended.  From a store with at most one session per \<open>sessionKey\<close>:
  \<open>getOrCreate\<close> keeps the invariant and returns a session of the requested key; the
  session of a subagent spawn and the session of a cron fire keep it when no session has
  their key yet; a cron fire whose key \<open>cron:<jobId>\<close> is already present (any later fire
  of the same job) adds, under a new session id, a second session with that key.
\<close>

theorem session_key_uniqueness_amended:
  assumes "uniqueKeys store"
  shows "uniqueKeys (snd (getOrCreate store key agent chan uuid nowMs))
    \<and> sessionKey (fst (getOrCreate store key agent chan uuid nowMs)) = key
    \<and> (findBySessionKey store (''subagent:'' @ rid) = None \<longrightarrow>
         uniqueKeys (snd (spawnSession store rid lbl tsk uuid nowMs)))
    \<and> (findBySessionKey store (''cron:'' @ jobId) = None \<longrightarrow>
         uniqueKeys (snd (cronFireSession store jobId jobName message agent uuid nowMs)))
    \<and> (findBySessionKey store (''cron:'' @ jobId) \<noteq> None \<and> uuid \<notin> fst ` set store \<longrightarrow>
         \<not> uniqueKeys (snd (cronFireSession store jobId jobName message agent uuid nowMs)))"
proof (intro conjI impI)
  show "uniqueKeys (snd (getOrCreate store key agent chan uuid nowMs))"
    using assms createSession_fresh_key[OF assms]
    by (cases "findBySessionKey store key") (simp_all add: getOrCreate_def)
  show "sessionKey (fst (getOrCreate store key agent chan uuid nowMs)) = key"
    by (cases "findBySessionKey store key")
       (simp_all add: getOrCreate_def createSession_key findBySessionKey_key)
next
  assume "findBySessionKey store (''subagent:'' @ rid) = None"
  then show "uniqueKeys (snd (spawnSession store rid lbl tsk uuid nowMs))"
    unfolding spawnSession_def by (rule createSession_fresh_key[OF assms])
next
  assume "findBySessionKey store (''cron:'' @ jobId) = None"
  then show "uniqueKeys (snd (cronFireSession store jobId jobName message agent uuid nowMs))"
    unfolding cronFireSession_def by (rule createSession_fresh_key[OF assms])
next
  assume "findBySessionKey store (''cron:'' @ jobId) \<noteq> None \<and> uuid \<notin> fst ` set store"
  then show "\<not> uniqueKeys (snd (cronFireSession store jobId jobName message agent uuid nowMs))"
    unfolding cronFireSession_def using createSession_present_key by blast
qed

lemmas session_defs = cronFireSession_def createSession_def cronSessionTitle_def truthy_def
  uniqueKeys_def findBySessionKey_def getOrCreate_def spawnSession_def inferChannel_def
  startsWith_def

theorem session_key_uniqueness_amended_witness:
  "uniqueKeys (snd (getOrCreate
        (snd (cronFireSession [] ''j1'' None ''ping'' ''default'' ''u1'' 1000))
        ''telegram:7'' ''default'' (Some ''telegram'') ''u2'' 2000))
   \<and> \<not> uniqueKeys (snd (cronFireSession
        (snd (cronFireSession [] ''j1'' None ''ping'' ''default'' ''u1'' 1000))
        ''j1'' None ''ping'' ''default'' ''u2'' 61000))"
proof -
  let ?s = "snd (cronFireSession [] ''j1'' None ''ping'' ''default'' ''u1'' 1000)"
  have u: "uniqueKeys ?s" by (simp add: session_defs Let_def)
  have p: "findBySessionKey ?s (''cron:'' @ ''j1'') \<noteq> None \<and> ''u2'' \<notin> fst ` set ?s"
    by (simp add: session_defs Let_def)
  show ?thesis
    using session_key_uniqueness_amended [OF u, of "''telegram:7''" "''default''"
        "Some ''telegram''" "''u2''" 2000 "''r1''" None "''t''" "''j1''" None "''ping''"] p
      session_key_uniqueness_amended [OF u, of "''telegram:7''" "''default''"
        "Some ''telegram''" "''u2''" 61000 "''r1''" None "''t''" "''j1''" None "''ping''"]
    by simp
qed

text \<open>
  Claim C2 as stated fails: two fires of the cron job \<open>j1\<close>, starting from the empty
  store, leave two sessions with the key \<open>cron:j1\<close>.
\<close>

theorem cron_refire_duplicates_session_key:
  "uniqueKeys [] \<and>
   uniqueKeys (snd (cronFireSession [] ''j1'' None ''ping'' ''default'' ''u1'' 1000)) \<and>
   \<not> uniqueKeys (snd (cronFireSession
        (snd (cronFireSession [] ''j1'' None ''ping'' ''default'' ''u1'' 1000))
        ''j1'' None ''ping'' ''default'' ''u2'' 61000))"
  by (simp add: session_defs Let_def)

section \<open>Verification of the runner\<close>

subsection \<open>One model call per iteration\<close>

lemma chatLog_persistMessage [simp]: "chatLog (persistMessage env m w) = chatLog w"
  by (simp add: persistMessage_def split: option.splits)

lemma chatLog_pushPersist [simp]: "chatLog (pushPersist env m w) = chatLog w"
  by (simp add: pushPersist_def)

lemma chatLog_absorb [simp]: "chatLog (absorb io w) = chatLog w"
  by (simp add: absorb_def)

lemma chatLog_drainInjected [simp]: "chatLog (drainInjected w) = chatLog w"
  by (simp add: drainInjected_def split: list.splits)

lemma chatLog_executeTools [simp]: "chatLog (snd (executeTools env tcs w)) = chatLog w"
  by (induction env tcs w rule: executeTools.induct)
     (auto split: option.splits prod.splits sum.splits)

lemma chatLog_callLLM: "chatLog (snd (callLLM env s w)) = chatLog w @ [messages w]"
  by (simp add: callLLM_def split: prod.splits)

lemma messages_drainInjected_prefix: "length (chatLog (drainInjected w)) = length (chatLog w)"
  by simp

lemma chatLog_mainStep:
  "chatLog (snd (snd (mainStep env s l w))) = chatLog w @ [messages (drainInjected w)]"
proof -
  obtain r w2 where c: "callLLM env s (drainInjected w) = (r, w2)" by (cases "callLLM env s (drainInjected w)")
  have w2: "chatLog w2 = chatLog w @ [messages (drainInjected w)]"
    using chatLog_callLLM[of env s "drainInjected w"] c by simp
  show ?thesis
  proof (cases r)
    case (Inl f)
    with c w2 show ?thesis by (simp add: mainStep_def)
  next
    case (Inr resp)
    obtain r3 w3 where e: "executeTools env (respToolCalls resp)
        (pushPersist env (assistantWithCalls resp) w2) = (r3, w3)"
      by (cases "executeTools env (respToolCalls resp) (pushPersist env (assistantWithCalls resp) w2)")
    have "chatLog w3 = chatLog w2"
      using chatLog_executeTools[of env "respToolCalls resp" "pushPersist env (assistantWithCalls resp) w2"] e
      by simp
    with c w2 Inr e show ?thesis
      by (simp add: mainStep_def Let_def split: option.splits)
  qed
qed

lemma mainLoop_count:
  "mainLoop env s it l w = (r, it', l', w') \<Longrightarrow>
   it \<le> it' \<and> it' \<le> max it maxIterations \<and> length (chatLog w') + it = length (chatLog w) + it'"
proof (induction env s it l w arbitrary: r it' l' w' rule: mainLoop.induct)
  case (1 env s it l w)
  show ?case
  proof (cases "it < maxIterations")
    case False
    with "1.prems" show ?thesis by simp
  next
    case True
    obtain c l1 w1 where st: "mainStep env s l w = (c, l1, w1)"
      by (cases "mainStep env s l w") auto
    have len: "length (chatLog w1) = length (chatLog w) + 1"
      using chatLog_mainStep[of env s l w] st by simp
    show ?thesis
    proof (cases c)
      case Continue
      with True st "1.prems" have rec: "mainLoop env s (it + 1) l1 w1 = (r, it', l', w')"
        by simp
      from "1.IH"[OF True st[symmetric] _ _ rec] Continue len True show ?thesis
        by (auto simp: max_def)
    next
      case Break
      with True st "1.prems" len show ?thesis by (auto simp: max_def)
    next
      case (Raise f)
      with True st "1.prems" len show ?thesis by (auto simp: max_def)
    qed
  qed
qed


lemma chatLog_postStep:
  "chatLog (snd (snd (postStep env s l im w))) = chatLog w @ [messages w @ [interruptMsg im]]"
proof -
  let ?w1 = "pushPersist env (interruptMsg im) w"
  obtain r w2 where c: "callLLM env s ?w1 = (r, w2)" by (cases "callLLM env s ?w1")
  have m: "messages ?w1 = messages w @ [interruptMsg im]"
    by (simp add: pushPersist_def persistMessage_def split: option.splits)
  have w2: "chatLog w2 = chatLog w @ [messages w @ [interruptMsg im]]"
    using chatLog_callLLM[of env s ?w1] c m by simp
  show ?thesis
  proof (cases r)
    case (Inl f)
    with c w2 show ?thesis by (simp add: postStep_def)
  next
    case (Inr resp)
    let ?w3 = "if respContent resp \<noteq> []
               then pushPersist env (plainMsg AssistantRole (respContent resp)) w2 else w2"
    obtain r4 w4 where e: "executeTools env (respToolCalls resp)
        (pushPersist env (assistantWithCalls resp) ?w3) = (r4, w4)"
      by (cases "executeTools env (respToolCalls resp) (pushPersist env (assistantWithCalls resp) ?w3)")
    have "chatLog w4 = chatLog w2"
      using chatLog_executeTools[of env "respToolCalls resp" "pushPersist env (assistantWithCalls resp) ?w3"] e
      by simp
    with c w2 Inr e show ?thesis
      by (simp add: postStep_def Let_def)
  qed
qed

lemma postLoop_count:
  "postLoop env s it l w = (r, it', l', w') \<Longrightarrow>
   it \<le> it' \<and> it' \<le> max it maxIterations \<and> length (chatLog w') + it = length (chatLog w) + it'"
proof (induction env s it l w arbitrary: r it' l' w' rule: postLoop.induct)
  case (1 env s it l w)
  show ?case
  proof (cases "injectedMessages w")
    case Nil
    with "1.prems" show ?thesis by simp
  next
    case (Cons im rest)
    show ?thesis
    proof (cases "it < maxIterations")
      case False
      with Cons "1.prems" show ?thesis by simp
    next
      case True
      let ?w0 = "w\<lparr>injectedMessages := rest\<rparr>"
      obtain f l1 w1 where st: "postStep env s l im ?w0 = (f, l1, w1)"
        by (cases "postStep env s l im ?w0") auto
      have len: "length (chatLog w1) = length (chatLog w) + 1"
        using chatLog_postStep[of env s l im ?w0] st by simp
      show ?thesis
      proof (cases f)
        case None
        with True Cons st "1.prems" have rec: "postLoop env s (it + 1) l1 w1 = (r, it', l', w')"
          by simp
        from "1.IH"[OF Cons True st[symmetric] None refl rec] len True show ?thesis
          by (auto simp: max_def)
      next
        case (Some e)
        with True Cons st "1.prems" len show ?thesis by (auto simp: max_def)
      qed
    qed
  qed
qed

lemma mainStep_Break_queue_empty:
  "mainStep env s l w = (Break, l', w') \<Longrightarrow> injectedMessages w' = []"
  by (auto simp: mainStep_def Let_def split: prod.splits sum.splits option.splits if_splits)

lemma mainLoop_exit:
  "mainLoop env s it l w = (None, it', l', w') \<Longrightarrow>
   maxIterations \<le> it' \<or> injectedMessages w' = []"
proof (induction env s it l w arbitrary: it' l' w' rule: mainLoop.induct)
  case (1 env s it l w)
  show ?case
  proof (cases "it < maxIterations")
    case False
    with "1.prems" show ?thesis by simp
  next
    case True
    obtain c l1 w1 where st: "mainStep env s l w = (c, l1, w1)"
      by (cases "mainStep env s l w") auto
    show ?thesis
    proof (cases c)
      case Continue
      with True st "1.prems" have rec: "mainLoop env s (it + 1) l1 w1 = (None, it', l', w')"
        by simp
      from "1.IH"[OF True st[symmetric] _ _ rec] Continue show ?thesis by simp
    next
      case Break
      with True st "1.prems" mainStep_Break_queue_empty[of env s l w l1 w1] show ?thesis
        by auto
    next
      case (Raise f)
      with True st "1.prems" show ?thesis by simp
    qed
  qed
qed

text \<open>After the main loop the drain phase has nothing left to do.\<close>

lemma postLoop_after_mainLoop:
  assumes "mainLoop env s it l w = (None, it', l', w')"
  shows "postLoop env s it' l' w' = (None, it', l', w')"
  using mainLoop_exit[OF assms] by (cases "injectedMessages w'") auto

lemma run_after_mainLoop:
  "run env u src w =
     (case mainLoop env (getToolSchemas (tools env) (isSubagent (startRun env u src w))) 0
             \<lparr>finalResponse = [], emptyRetries = 0\<rparr> (startRun env u src w) of
        (Some f, it, l, w2) \<Rightarrow> caught f w2
      | (None, it, l, w2) \<Rightarrow> finish l w2)"
proof -
  let ?m = "mainLoop env (getToolSchemas (tools env) (isSubagent (startRun env u src w))) 0
             \<lparr>finalResponse = [], emptyRetries = 0\<rparr> (startRun env u src w)"
  obtain r it l w2 where m: "?m = (r, it, l, w2)" by (cases ?m) auto
  show ?thesis
  proof (cases r)
    case None
    with m postLoop_after_mainLoop[of env _ 0 _ _ it l w2] show ?thesis
      by (simp add: run_def Let_def)
  next
    case (Some f)
    with m show ?thesis by (simp add: run_def Let_def)
  qed
qed

lemma chatLog_startRun [simp]: "chatLog (startRun env u src w) = chatLog w"
  by (simp add: startRun_def Let_def syncTranscript_def split: option.splits)

lemma chatLog_caught [simp]: "chatLog (snd (caught f w)) = chatLog w"
  by (simp add: caught_def)

lemma chatLog_finish [simp]: "chatLog (snd (finish l w)) = chatLog w"
  by (simp add: finish_def)

lemma run_call_bound:
  "length (chatLog (snd (run env u src w))) \<le> length (chatLog w) + maxIterations"
proof -
  let ?w1 = "startRun env u src w"
  let ?m = "mainLoop env (getToolSchemas (tools env) (isSubagent ?w1)) 0
             \<lparr>finalResponse = [], emptyRetries = 0\<rparr> ?w1"
  obtain r it l w2 where m: "?m = (r, it, l, w2)" by (cases ?m) auto
  from mainLoop_count[OF m] have "length (chatLog w2) \<le> length (chatLog w) + maxIterations"
    by simp
  with m show ?thesis
    by (cases r) (simp_all add: run_after_mainLoop)
qed

subsection \<open>A run that is not interrupted by a failure returns\<close>

lemma getToolByName_mem:
  "getToolByName reg name = Some t \<Longrightarrow> t \<in> set (getAllTools reg False) \<and> toolName t = name"
  by (auto simp: getToolByName_def find_Some_iff)

lemma executeTools_no_failure:
  assumes ok: "\<forall>t \<in> set (getAllTools (tools env) False).
                 \<forall>inp n. \<exists>out io. execute t inp n = (Inr out, io)"
  shows "fst (executeTools env tcs w) = None"
proof (induction tcs arbitrary: w)
  case Nil
  show ?case by simp
next
  case (Cons tc tcs)
  show ?case
  proof (cases "getToolByName (tools env) (tcName tc)")
    case None
    with Cons show ?thesis by simp
  next
    case (Some tool)
    then have "tool \<in> set (getAllTools (tools env) False)"
      using getToolByName_mem by blast
    with ok obtain out io where "execute tool (tcInput tc) (tick w) = (Inr out, io)"
      by blast
    with Some Cons show ?thesis by simp
  qed
qed

lemma mainStep_no_failure:
  assumes llm: "\<forall>n ms sch. \<exists>resp io. chat env n ms sch = (Inr resp, io)"
    and ok: "\<forall>t \<in> set (getAllTools (tools env) False).
               \<forall>inp n. \<exists>out io. execute t inp n = (Inr out, io)"
  shows "fst (mainStep env s l w) \<noteq> Raise f"
proof -
  obtain resp io where c: "chat env (tick (drainInjected w)) (messages (drainInjected w)) s = (Inr resp, io)"
    using llm by blast
  let ?w2 = "absorb io ((drainInjected w)\<lparr>chatLog := chatLog (drainInjected w) @ [messages (drainInjected w)],
                 trace := trace (drainInjected w) @ [ModelReturned resp]\<rparr>)"
  have call: "callLLM env s (drainInjected w) = (Inr resp, ?w2)"
    using c by (simp add: callLLM_def modelOutcome_def)
  obtain r3 w3 where e: "executeTools env (respToolCalls resp)
        (pushPersist env (assistantWithCalls resp) ?w2) = (r3, w3)"
    by (cases "executeTools env (respToolCalls resp) (pushPersist env (assistantWithCalls resp) ?w2)")
  have "r3 = None"
    using executeTools_no_failure[OF ok, of "respToolCalls resp" "pushPersist env (assistantWithCalls resp) ?w2"] e
    by simp
  with call e show ?thesis
    by (simp add: mainStep_def Let_def)
qed

lemma mainLoop_no_failure:
  assumes llm: "\<forall>n ms sch. \<exists>resp io. chat env n ms sch = (Inr resp, io)"
    and ok: "\<forall>t \<in> set (getAllTools (tools env) False).
               \<forall>inp n. \<exists>out io. execute t inp n = (Inr out, io)"
  shows "fst (mainLoop env s it l w) = None"
  using assms
proof (induction env s it l w rule: mainLoop.induct)
  case (1 env s it l w)
  show ?case
  proof (cases "it < maxIterations")
    case False
    then show ?thesis by simp
  next
    case True
    obtain c l1 w1 where st: "mainStep env s l w = (c, l1, w1)"
      by (cases "mainStep env s l w") auto
    show ?thesis
    proof (cases c)
      case Continue
      from "1.IH"[OF True st[symmetric] _ _ "1.prems"] Continue True st show ?thesis
        by simp
    next
      case Break
      with True st show ?thesis by simp
    next
      case (Raise f)
      with st mainStep_no_failure[OF "1.prems", of s l w f] show ?thesis by simp
    qed
  qed
qed

lemma trim_done: "trim ''(done)'' = ''(done)''"
  by (simp add: trim_def isSpace_def)

lemma finish_nonempty: "\<exists>text. fst (finish l w) = Completed text \<and> trim text \<noteq> []"
  by (simp add: finish_def trim_done)

lemma mainStep_no_content:
  assumes "\<forall>n ms sch resp io. chat env n ms sch = (Inr resp, io) \<longrightarrow> respContent resp = []"
  shows "finalResponse (fst (snd (mainStep env s l w))) = finalResponse l"
proof -
  obtain r w2 where call: "callLLM env s (drainInjected w) = (r, w2)"
    by (cases "callLLM env s (drainInjected w)")
  show ?thesis
  proof (cases r)
    case (Inl f)
    with call show ?thesis by (simp add: mainStep_def)
  next
    case (Inr resp)
    obtain r' io where ch: "chat env (tick (drainInjected w)) (messages (drainInjected w)) s = (r', io)"
      by (cases "chat env (tick (drainInjected w)) (messages (drainInjected w)) s")
    with call Inr have "r' = Inr resp" by (simp add: callLLM_def)
    with ch assms have "respContent resp = []" by blast
    with call Inr show ?thesis
      by (simp add: mainStep_def Let_def split: prod.splits option.splits)
  qed
qed

lemma mainLoop_no_content:
  assumes "\<forall>n ms sch resp io. chat env n ms sch = (Inr resp, io) \<longrightarrow> respContent resp = []"
  shows "finalResponse (fst (snd (snd (mainLoop env s it l w)))) = finalResponse l"
  using assms
proof (induction env s it l w rule: mainLoop.induct)
  case (1 env s it l w)
  show ?case
  proof (cases "it < maxIterations")
    case False
    then show ?thesis by simp
  next
    case True
    obtain c l1 w1 where st: "mainStep env s l w = (c, l1, w1)"
      by (cases "mainStep env s l w") auto
    have l1: "finalResponse l1 = finalResponse l"
      using mainStep_no_content[OF "1.prems", of s l w] st by simp
    show ?thesis
    proof (cases c)
      case Continue
      from "1.IH"[OF True st[symmetric] _ _ "1.prems"] Continue True st l1 show ?thesis
        by simp
    next
      case Break
      with True st l1 show ?thesis by simp
    next
      case (Raise f)
      with True st l1 show ?thesis by simp
    qed
  qed
qed

lemma run_returns:
  assumes llm: "\<forall>n ms sch. \<exists>resp io. chat env n ms sch = (Inr resp, io)"
    and ok: "\<forall>t \<in> set (getAllTools (tools env) False).
               \<forall>inp n. \<exists>out io. execute t inp n = (Inr out, io)"
  shows "\<exists>text. fst (run env u src w) = Completed text \<and> trim text \<noteq> [] \<and>
      ((\<forall>n ms sch resp io. chat env n ms sch = (Inr resp, io) \<longrightarrow> respContent resp = [])
         \<longrightarrow> text = ''(done)'')"
proof -
  let ?w1 = "startRun env u src w"
  let ?s = "getToolSchemas (tools env) (isSubagent ?w1)"
  let ?l0 = "\<lparr>finalResponse = [], emptyRetries = 0\<rparr>"
  obtain r it l w2 where m: "mainLoop env ?s 0 ?l0 ?w1 = (r, it, l, w2)"
    by (cases "mainLoop env ?s 0 ?l0 ?w1") auto
  have "r = None"
    using mainLoop_no_failure[OF llm ok, of ?s 0 ?l0 ?w1] m by simp
  with m have res: "run env u src w = finish l w2"
    by (simp add: run_after_mainLoop)
  have nc: "finalResponse l = []"
    if "\<forall>n ms sch resp io. chat env n ms sch = (Inr resp, io) \<longrightarrow> respContent resp = []"
    using mainLoop_no_content[OF that, of ?s 0 ?l0 ?w1] m by simp
  have empty: "trim [] = []" by (simp add: trim_def)
  show ?thesis
  proof (cases "trim (finalResponse l) = []")
    case True
    then show ?thesis unfolding res by (simp add: finish_def trim_done)
  next
    case False
    then have "finalResponse l \<noteq> []" using empty by auto
    with False nc show ?thesis unfolding res by (auto simp: finish_def)
  qed
qed

subsection \<open>Evaluating a run on an example\<close>

lemmas run_defs = run_def startRun_def syncTranscript_def pushPersist_def persistMessage_def
  absorb_def callLLM_def drainInjected_def mainStep_def postStep_def finish_def caught_def
  getToolByName_def getAllTools_def getToolSchemas_def SUBAGENT_DENIED_TOOLS_def
  fullSystemPrompt_def frameInput_def plainMsg_def interruptMsg_def assistantWithCalls_def
  toolMsg_def stamp_def toMessage_def truthy_def maxIterations_def trim_def isSpace_def

lemmas example_runner_defs = quiet_def quietTool_def sideNote_def sessionSendTool_def
  exampleRegistry_def scriptedEnv_def idleRunner_def callOf_def sayText_def
  scriptThen_def always_def

subsection \<open>What the calls of a run decide\<close>

lemma thrownIn_append [simp]: "thrownIn (a @ b) = thrownIn a @ thrownIn b"
  by (induction a rule: thrownIn.induct) simp_all

lemma responsesIn_append [simp]: "responsesIn (a @ b) = responsesIn a @ responsesIn b"
  by (induction a rule: responsesIn.induct) simp_all

lemma lastContent_Nil [simp]: "lastContent [] = []"
  by (simp add: lastContent_def)

lemma last_filter_nonempty:
  "filter (\<lambda>c. c \<noteq> []) cs \<noteq> [] \<Longrightarrow> last (filter (\<lambda>c. c \<noteq> []) cs) \<noteq> []"
proof -
  assume a: "filter (\<lambda>c. c \<noteq> []) cs \<noteq> []"
  then have "last (filter (\<lambda>c. c \<noteq> []) cs) \<in> set (filter (\<lambda>c. c \<noteq> []) cs)"
    by (rule last_in_set)
  then show ?thesis by simp
qed

lemma lastContent_append:
  "lastContent (a @ b) = (if lastContent b = [] then lastContent a else lastContent b)"
  using last_filter_nonempty[of "map respContent b"]
  by (simp add: lastContent_def Let_def)

lemma lastContent_single [simp]: "lastContent [r] = respContent r"
  by (simp add: lastContent_def)

lemma trace_persistMessage [simp]: "trace (persistMessage env m w) = trace w"
  by (simp add: persistMessage_def split: option.splits)

lemma trace_pushPersist [simp]: "trace (pushPersist env m w) = trace w"
  by (simp add: pushPersist_def)

lemma trace_absorb [simp]: "trace (absorb io w) = trace w"
  by (simp add: absorb_def)

lemma trace_drainInjected [simp]: "trace (drainInjected w) = trace w"
  by (simp add: drainInjected_def split: list.splits)

lemma trace_startRun [simp]: "trace (startRun env u src w) = trace w"
  by (simp add: startRun_def Let_def syncTranscript_def split: option.splits)

lemma trace_caught [simp]: "trace (snd (caught f w)) = trace w"
  by (simp add: caught_def)

lemma trace_finish [simp]: "trace (snd (finish l w)) = trace w"
  by (simp add: finish_def)

lemma executeTools_trace:
  "executeTools env tcs w = (r, w') \<Longrightarrow>
   \<exists>new. trace w' = trace w @ new \<and> responsesIn new = [] \<and>
     (case r of None \<Rightarrow> thrownIn new = [] | Some f \<Rightarrow> stoppedBy f new)"
proof (induction tcs arbitrary: w)
  case Nil
  then show ?case by auto
next
  case (Cons tc tcs)
  show ?case
  proof (cases "getToolByName (tools env) (tcName tc)")
    case None
    let ?w1 = "pushPersist env (toolMsg tc (''Error: Unknown tool '' @ tcName tc)) w"
    from Cons.prems None have "executeTools env tcs ?w1 = (r, w')" by simp
    from Cons.IH[OF this] show ?thesis by simp
  next
    case (Some tool)
    obtain x io where e: "execute tool (tcInput tc) (tick w) = (x, io)"
      by (cases "execute tool (tcInput tc) (tick w)")
    show ?thesis
    proof (cases x)
      case (Inl f)
      with Cons.prems Some e have "r = Some f"
        and "w' = absorb io (w\<lparr>executed := executed w @ [tc], trace := trace w @ [ToolThrew f]\<rparr>)"
        by auto
      then show ?thesis
        by (intro exI[of _ "[ToolThrew f]"]) (simp add: stoppedBy_def)
    next
      case (Inr out)
      let ?w2 = "pushPersist env (toolMsg tc out)
                   (absorb io (w\<lparr>executed := executed w @ [tc],
                                 trace := trace w @ [ToolReturned out]\<rparr>))"
      from Cons.prems Some e Inr have "executeTools env tcs ?w2 = (r, w')" by simp
      from Cons.IH[OF this] obtain new where n: "trace w' = trace ?w2 @ new"
        "responsesIn new = []"
        "(case r of None \<Rightarrow> thrownIn new = [] | Some f \<Rightarrow> stoppedBy f new)"
        by blast
      show ?thesis
      proof (intro exI[of _ "ToolReturned out # new"] conjI)
        show "trace w' = trace w @ ToolReturned out # new" using n(1) by simp
        show "responsesIn (ToolReturned out # new) = []" using n(2) by simp
        show "case r of None \<Rightarrow> thrownIn (ToolReturned out # new) = []
              | Some f \<Rightarrow> stoppedBy f (ToolReturned out # new)"
          using n(3) by (auto simp: stoppedBy_def split: option.splits)
      qed
    qed
  qed
qed

text \<open>What one iteration adds to the trace, and what it does to \<open>finalResponse\<close>.\<close>

lemma callLLM_trace:
  "callLLM env s w = (x, w2) \<Longrightarrow> trace w2 = trace w @ [modelOutcome x]"
  by (auto simp: callLLM_def split: prod.splits)

lemma mainStep_trace:
  assumes "mainStep env s l w = (c, l', w')"
  shows "\<exists>new. trace w' = trace w @ new \<and> new \<noteq> [] \<and>
     (case c of Raise f \<Rightarrow> stoppedBy f new | _ \<Rightarrow> keeps l l' new)"
proof -
  obtain x w2 where c: "callLLM env s (drainInjected w) = (x, w2)"
    by (cases "callLLM env s (drainInjected w)")
  have t2: "trace w2 = trace w @ [modelOutcome x]"
    using callLLM_trace[OF c] by simp
  show ?thesis
  proof (cases x)
    case (Inl f)
    with assms c have "c = Raise f" "w' = w2" by (auto simp: mainStep_def)
    with t2 Inl show ?thesis
      by (intro exI[of _ "[ModelThrew f]"]) (simp add: stoppedBy_def modelOutcome_def)
  next
    case (Inr resp)
    let ?l1 = "if respContent resp \<noteq> [] then l\<lparr>finalResponse := respContent resp\<rparr> else l"
    have t2': "trace w2 = trace w @ [ModelReturned resp]"
      using t2 Inr by (simp add: modelOutcome_def)
    show ?thesis
    proof (cases "respToolCalls resp \<noteq> []")
      case True
      obtain r3 w3 where e: "executeTools env (respToolCalls resp)
          (pushPersist env (assistantWithCalls resp) w2) = (r3, w3)"
        by (cases "executeTools env (respToolCalls resp) (pushPersist env (assistantWithCalls resp) w2)")
      from executeTools_trace[OF e] obtain n3 where n3:
        "trace w3 = trace w2 @ n3" "responsesIn n3 = []"
        "(case r3 of None \<Rightarrow> thrownIn n3 = [] | Some f \<Rightarrow> stoppedBy f n3)"
        by auto
      from assms c Inr True e have res: "c = (case r3 of None \<Rightarrow> Continue | Some f \<Rightarrow> Raise f)"
        "l' = ?l1" "w' = w3"
        by (auto simp: mainStep_def Let_def split: option.splits)
      show ?thesis
      proof (intro exI[of _ "ModelReturned resp # n3"] conjI)
        show "trace w' = trace w @ ModelReturned resp # n3" using res n3 t2' by simp
        show "ModelReturned resp # n3 \<noteq> []" by simp
        show "case c of Raise f \<Rightarrow> stoppedBy f (ModelReturned resp # n3)
              | _ \<Rightarrow> keeps l l' (ModelReturned resp # n3)"
          using res n3 by (auto simp: stoppedBy_def keeps_def split: option.splits)
      qed
    next
      case False
      from assms c Inr False have res: "c = Continue \<or> c = Break"
        "finalResponse l' = finalResponse ?l1" "trace w' = trace w2"
        by (auto simp: mainStep_def Let_def split: if_splits)
      show ?thesis
      proof (intro exI[of _ "[ModelReturned resp]"] conjI)
        show "trace w' = trace w @ [ModelReturned resp]" using res t2' by simp
        show "[ModelReturned resp] \<noteq> []" by simp
        show "case c of Raise f \<Rightarrow> stoppedBy f [ModelReturned resp]
              | _ \<Rightarrow> keeps l l' [ModelReturned resp]"
          using res by (auto simp: keeps_def)
      qed
    qed
  qed
qed

lemma keeps_trans:
  "keeps l l1 a \<Longrightarrow> keeps l1 l2 b \<Longrightarrow> keeps l l2 (a @ b)"
  by (simp add: keeps_def lastContent_append)

lemma keeps_stopped:
  "keeps l l1 a \<Longrightarrow> stoppedBy f b \<Longrightarrow> stoppedBy f (a @ b)"
  by (auto simp: keeps_def stoppedBy_def)

lemma keeps_refl: "keeps l l []"
  by (simp add: keeps_def)

lemma mainLoop_trace:
  "mainLoop env s it l w = (r, it', l', w') \<Longrightarrow>
   \<exists>new. trace w' = trace w @ new \<and> (it < maxIterations \<longrightarrow> new \<noteq> []) \<and>
     (case r of None \<Rightarrow> keeps l l' new | Some f \<Rightarrow> stoppedBy f new)"
proof (induction env s it l w arbitrary: r it' l' w' rule: mainLoop.induct)
  case (1 env s it l w)
  show ?case
  proof (cases "it < maxIterations")
    case False
    with "1.prems" have "r = None" "l' = l" "w' = w" by auto
    with False show ?thesis by (intro exI[of _ "[]"]) (simp add: keeps_refl)
  next
    case True
    obtain c l1 w1 where st: "mainStep env s l w = (c, l1, w1)"
      by (cases "mainStep env s l w") auto
    from mainStep_trace[OF st] obtain n1 where n1: "trace w1 = trace w @ n1" "n1 \<noteq> []"
      "(case c of Raise f \<Rightarrow> stoppedBy f n1 | _ \<Rightarrow> keeps l l1 n1)"
      by blast
    show ?thesis
    proof (cases c)
      case Continue
      with True st "1.prems" have rec: "mainLoop env s (it + 1) l1 w1 = (r, it', l', w')"
        by simp
      from "1.IH"[OF True st[symmetric] _ _ rec] Continue obtain n2 where
        n2: "trace w' = trace w1 @ n2"
        "(case r of None \<Rightarrow> keeps l1 l' n2 | Some f \<Rightarrow> stoppedBy f n2)"
        by auto
      from n1 Continue have k: "keeps l l1 n1" by simp
      show ?thesis
      proof (intro exI[of _ "n1 @ n2"] conjI impI)
        show "trace w' = trace w @ n1 @ n2" using n1 n2 by simp
        show "n1 @ n2 \<noteq> []" using n1 by simp
        show "case r of None \<Rightarrow> keeps l l' (n1 @ n2) | Some f \<Rightarrow> stoppedBy f (n1 @ n2)"
          using n2(2) keeps_trans[OF k] keeps_stopped[OF k] by (auto split: option.splits)
      qed
    next
      case Break
      with True st "1.prems" have "r = None" "l' = l1" "w' = w1" by auto
      with n1 Break show ?thesis by (intro exI[of _ n1]) simp
    next
      case (Raise f)
      with True st "1.prems" have "r = Some f" "w' = w1" by auto
      with n1 Raise show ?thesis by (intro exI[of _ n1]) simp
    qed
  qed
qed

lemma run_trace:
  "\<exists>new. trace (snd (run env u src w)) = trace w @ new \<and> new \<noteq> [] \<and>
     (thrownIn new = [] \<and>
        fst (run env u src w) =
          Completed (if trim (lastContent (responsesIn new)) = [] then ''(done)''
                     else lastContent (responsesIn new))
      \<or> (\<exists>f. stoppedBy f new \<and>
           fst (run env u src w) =
             (case f of AbortError \<Rightarrow> AbortedRun | OtherError e \<Rightarrow> Thrown e)))"
proof -
  let ?w1 = "startRun env u src w"
  let ?s = "getToolSchemas (tools env) (isSubagent ?w1)"
  let ?l0 = "\<lparr>finalResponse = [], emptyRetries = 0\<rparr>"
  obtain r it l w2 where m: "mainLoop env ?s 0 ?l0 ?w1 = (r, it, l, w2)"
    by (cases "mainLoop env ?s 0 ?l0 ?w1") auto
  from mainLoop_trace[OF m] obtain new where n: "trace w2 = trace w @ new" "new \<noteq> []"
    "(case r of None \<Rightarrow> keeps ?l0 l new | Some f \<Rightarrow> stoppedBy f new)"
    by (auto simp: maxIterations_def)
  show ?thesis
  proof (cases r)
    case None
    with m have res: "run env u src w = finish l w2" by (simp add: run_after_mainLoop)
    from n None have k: "keeps ?l0 l new" by simp
    then have "finalResponse l = lastContent (responsesIn new)" by (simp add: keeps_def)
    with k n show ?thesis unfolding res
      by (intro exI[of _ new]) (simp add: finish_def keeps_def)
  next
    case (Some f)
    with m have res: "run env u src w = caught f w2" by (simp add: run_after_mainLoop)
    from n Some show ?thesis unfolding res
      by (intro exI[of _ new]) (auto simp: caught_def)
  qed
qed

subsection \<open>The loop bound and the result of a run (C3)\<close>

lemmas write_example_defs = nullPathError_def writeTool_def registryWithWrite_def
  envWithWrite_def callWith_def

lemma mainLoop_progress:
  assumes "it < maxIterations" "mainLoop env s it l w = (r, it', l', w')"
  shows "it < it'"
proof -
  obtain c l1 w1 where st: "mainStep env s l w = (c, l1, w1)"
    by (cases "mainStep env s l w") auto
  show ?thesis
  proof (cases c)
    case Continue
    with assms st have rec: "mainLoop env s (it + 1) l1 w1 = (r, it', l', w')" by simp
    from mainLoop_count[OF rec] show ?thesis by simp
  next
    case Break
    with assms st show ?thesis by auto
  next
    case (Raise f)
    with assms st show ?thesis by auto
  qed
qed

lemma run_call_at_least_one:
  "length (chatLog w) + 1 \<le> length (chatLog (snd (run env u src w)))"
proof -
  let ?w1 = "startRun env u src w"
  let ?m = "mainLoop env (getToolSchemas (tools env) (isSubagent ?w1)) 0
             \<lparr>finalResponse = [], emptyRetries = 0\<rparr> ?w1"
  obtain r it l w2 where m: "?m = (r, it, l, w2)" by (cases ?m) auto
  have "0 < it" using mainLoop_progress[OF _ m] by (simp add: maxIterations_def)
  with mainLoop_count[OF m] have "length (chatLog w) + 1 \<le> length (chatLog w2)"
    by simp
  with m show ?thesis
    by (cases r) (simp_all add: run_after_mainLoop)
qed

text \<open>Two short runs, evaluated: what their calls returned or threw.\<close>

lemma write_null_trace:
  "trace (snd (run (envWithWrite (always (callWith ''write'' ''null''))) ''save it'' FromUser
          (idleRunner False [])))
     = [ModelReturned (callWith ''write'' ''null''), ToolThrew (OtherError nullPathError)]"
  by (simp add: run_defs example_runner_defs write_example_defs modelOutcome_def)

lemma hello_trace:
  "trace (snd (run (scriptedEnv (scriptThen (callOf ''bash'') (sayText ''Hello''))) ''go'' FromUser
          (idleRunner False [])))
     = [ModelReturned (callOf ''bash''), ToolReturned ''a.txt'', ModelReturned (sayText ''Hello'')]"
  by (simp add: run_defs example_runner_defs modelOutcome_def)

text \<open>
  Claim C3, as amended.  For every input, model and tools, a call of \<open>run\<close> makes at
  least one and at most 10 model calls, the main loop and the drain phase after it counted
  together, and then ends (the function is total).  How it ends is decided by the calls of
  this run alone.  When none of them threw, \<open>run\<close> returns a final response: the content
  of the last model response of the run that had content, and the sentinel \<open>(done)\<close>
  when no response of the run had content or that content is blank.  When a call threw,
  it is the last call of the run and the only one that threw: \<open>run\<close> returns
  \<open>(aborted)\<close> for an \<open>AbortError\<close> and rethrows every other error, returning nothing.
\<close>

theorem run_stops_within_ten_calls:
  "let res = run env userMessage source w;
       new = drop (length (trace w)) (trace (snd res))
   in trace (snd res) = trace w @ new
      \<and> length (chatLog w) + 1 \<le> length (chatLog (snd res))
      \<and> length (chatLog (snd res)) \<le> length (chatLog w) + 10
      \<and> (thrownIn new = [] \<longrightarrow>
           fst res = Completed (if trim (lastContent (responsesIn new)) = [] then ''(done)''
                                else lastContent (responsesIn new)))
      \<and> (\<forall>f fs. thrownIn new = f # fs \<longrightarrow>
           fs = [] \<and> (last new = ModelThrew f \<or> last new = ToolThrew f) \<and>
           fst res = (case f of AbortError \<Rightarrow> AbortedRun | OtherError e \<Rightarrow> Thrown e))"
proof -
  let ?res = "run env userMessage source w"
  obtain new where n: "trace (snd ?res) = trace w @ new"
    and alt: "thrownIn new = [] \<and>
        fst ?res = Completed (if trim (lastContent (responsesIn new)) = [] then ''(done)''
                     else lastContent (responsesIn new))
      \<or> (\<exists>f. stoppedBy f new \<and>
           fst ?res = (case f of AbortError \<Rightarrow> AbortedRun | OtherError e \<Rightarrow> Thrown e))"
    using run_trace[of env userMessage source w] by blast
  have d: "drop (length (trace w)) (trace (snd ?res)) = new" using n by simp
  have lo: "length (chatLog w) + 1 \<le> length (chatLog (snd ?res))"
    by (rule run_call_at_least_one)
  have hi: "length (chatLog (snd ?res)) \<le> length (chatLog w) + 10"
    using run_call_bound[of env userMessage source w] by (simp add: maxIterations_def)
  have ok: "thrownIn new = [] \<longrightarrow>
           fst ?res = Completed (if trim (lastContent (responsesIn new)) = [] then ''(done)''
                                else lastContent (responsesIn new))"
    using alt by (auto simp: stoppedBy_def)
  have ko: "\<forall>f fs. thrownIn new = f # fs \<longrightarrow>
           fs = [] \<and> (last new = ModelThrew f \<or> last new = ToolThrew f) \<and>
           fst ?res = (case f of AbortError \<Rightarrow> AbortedRun | OtherError e \<Rightarrow> Thrown e)"
    using alt by (auto simp: stoppedBy_def)
  show ?thesis
    unfolding Let_def d using n lo hi ok ko by (intro conjI)
qed

theorem run_stops_within_ten_calls_witness:
  "(let res = run (scriptedEnv (always (callOf ''bash''))) ''go'' FromUser (idleRunner False [])
    in thrownIn (trace (snd res)) = [] \<and> fst res = Completed ''(done)''
       \<and> 1 \<le> length (chatLog (snd res)) \<and> length (chatLog (snd res)) \<le> 10)
   \<and> (let res = run (scriptedEnv (scriptThen (callOf ''bash'') (sayText ''Hello''))) ''go''
                  FromUser (idleRunner False [])
      in thrownIn (trace (snd res)) = [] \<and> fst res = Completed ''Hello'')
   \<and> (let res = run (envWithWrite (always (callWith ''write'' ''null''))) ''save it'' FromUser
                  (idleRunner False [])
      in thrownIn (trace (snd res)) = [OtherError nullPathError]
         \<and> last (trace (snd res)) = ToolThrew (OtherError nullPathError)
         \<and> fst res = Thrown nullPathError)"
proof -
  let ?w = "idleRunner False []"
  have z: "trace ?w = []" "chatLog ?w = []" by (simp_all add: idleRunner_def)
  let ?envA = "scriptedEnv (always (callOf ''bash''))"
  let ?A = "run ?envA ''go'' FromUser ?w"
  have llm: "\<forall>n ms sch. \<exists>resp io. chat ?envA n ms sch = (Inr resp, io)"
    by (simp add: scriptedEnv_def)
  have ok: "\<forall>t \<in> set (getAllTools (tools ?envA) False).
          \<forall>inp n. \<exists>out io. execute t inp n = (Inr out, io)"
    by (simp add: scriptedEnv_def exampleRegistry_def getAllTools_def quietTool_def
        sessionSendTool_def)
  have nc: "\<forall>n ms sch resp io. chat ?envA n ms sch = (Inr resp, io) \<longrightarrow> respContent resp = []"
    by (auto simp: scriptedEnv_def callOf_def always_def)
  have doneA: "fst ?A = Completed ''(done)''"
    using run_returns[OF llm ok, of "''go''" FromUser ?w] nc by auto
  note A = run_stops_within_ten_calls[of ?envA "''go''" FromUser ?w, unfolded Let_def z, simplified]
  have thrA: "thrownIn (trace (snd ?A)) = []"
  proof (cases "thrownIn (trace (snd ?A))")
    case Nil
    then show ?thesis .
  next
    case (Cons f fs)
    with A have "fst ?A = (case f of AbortError \<Rightarrow> AbortedRun | OtherError e \<Rightarrow> Thrown e)"
      by blast
    with doneA show ?thesis by (cases f) simp_all
  qed
  have boundA: "1 \<le> length (chatLog (snd ?A))" "length (chatLog (snd ?A)) \<le> 10"
    using A by simp_all
  let ?C = "run (scriptedEnv (scriptThen (callOf ''bash'') (sayText ''Hello''))) ''go'' FromUser ?w"
  note C = run_stops_within_ten_calls[of "scriptedEnv (scriptThen (callOf ''bash'') (sayText ''Hello''))"
      "''go''" FromUser ?w, unfolded Let_def z, simplified, unfolded hello_trace]
  have thrC: "thrownIn (trace (snd ?C)) = []"
    by (simp add: hello_trace)
  have resC: "fst ?C = Completed ''Hello''"
    using C by (simp add: lastContent_def callOf_def sayText_def trim_def isSpace_def)
  let ?B = "run (envWithWrite (always (callWith ''write'' ''null''))) ''save it'' FromUser ?w"
  note B = run_stops_within_ten_calls[of "envWithWrite (always (callWith ''write'' ''null''))"
      "''save it''" FromUser ?w, unfolded Let_def z, simplified, unfolded write_null_trace]
  have thrB: "thrownIn (trace (snd ?B)) = [OtherError nullPathError]"
    "last (trace (snd ?B)) = ToolThrew (OtherError nullPathError)"
    by (simp_all add: write_null_trace)
  have resB: "fst ?B = Thrown nullPathError"
    using B by simp
  show ?thesis
    unfolding Let_def using thrA doneA boundA thrC resC thrB resB by (intro conjI)
qed

text \<open>
  Claim C3 as stated fails.  The model answers with a call of \<open>write\<close> whose arguments
  are \<open>null\<close>; \<open>execute\<close> throws a \<open>TypeError\<close>, \<open>run\<close> catches it, finds that
  it is no \<open>AbortError\<close> and rethrows it: the call of \<open>run\<close> returns no response.
\<close>

theorem run_rethrows_error_of_tool:
  "fst (run (envWithWrite (always (callWith ''write'' ''null''))) ''save it'' FromUser
          (idleRunner False [])) = Thrown nullPathError
   \<and> returned (fst (run (envWithWrite (always (callWith ''write'' ''null''))) ''save it'' FromUser
          (idleRunner False []))) = None"
  by (simp add: run_defs example_runner_defs write_example_defs)

subsection \<open>Subagents and the spawn tool (C5)\<close>

lemma subagent_schemas_exclude_spawn:
  "''subagent_spawn'' \<notin> schemaName ` set (getToolSchemas reg True)"
  by (auto simp: getToolSchemas_def getAllTools_def SUBAGENT_DENIED_TOOLS_def)

lemma getToolByName_ignores_isSubagent:
  "t \<in> set (builtinTools reg) \<Longrightarrow> toolName t = name \<Longrightarrow> getToolByName reg name \<noteq> None"
  by (auto simp: getToolByName_def getAllTools_def find_None_iff)

text \<open>
  Claim C5, at the failing input.  The schemas offered to a subagent runner leave the spawn
  tool out.  But when the model of a runner with \<open>isSubagent = true\<close> answers with a
  tool call named \<open>subagent_spawn\<close>, the loop looks the tool up with the unfiltered
  \<open>getToolByName\<close>, finds it and executes it: the tool result pushed and persisted is
  the tool's output, and no \<open>Error: Unknown tool subagent_spawn\<close> entry is written.
\<close>

theorem subagent_runner_executes_spawn_call:
  "isSubagent (idleRunner True [])
   \<and> ''subagent_spawn'' \<notin> schemaName ` set (getToolSchemas exampleRegistry True)
   \<and> map tcName (executed (snd (run
        (scriptedEnv (scriptThen (callOf ''subagent_spawn'') (sayText ''spawned'')))
        ''task'' FromUser (idleRunner True [])))) = [''subagent_spawn'']
   \<and> map content (messages (snd (run
        (scriptedEnv (scriptThen (callOf ''subagent_spawn'') (sayText ''spawned'')))
        ''task'' FromUser (idleRunner True []))))
      = [''SYS'', ''task'', [], ''{\"status\":\"accepted\"}'', ''spawned'']
   \<and> ''Error: Unknown tool subagent_spawn'' \<notin> content ` set (transcript (snd (run
        (scriptedEnv (scriptThen (callOf ''subagent_spawn'') (sayText ''spawned'')))
        ''task'' FromUser (idleRunner True []))))"
  by (simp add: run_defs example_runner_defs)

theorem subagent_runner_executes_spawn_call_witness:
  "isSubagent (idleRunner True [])
   \<and> ''subagent_spawn'' \<notin> schemaName ` set (getToolSchemas exampleRegistry True)
   \<and> map tcName (executed (snd (run
        (scriptedEnv (scriptThen (callOf ''subagent_spawn'') (sayText ''spawned'')))
        ''task'' FromUser (idleRunner True [])))) = [''subagent_spawn'']"
  using subagent_runner_executes_spawn_call by blast

subsection \<open>The loop does not read the transcript\<close>

lemma sameView_refl [simp]: "sameView a a"
  by (simp add: sameView_def)

lemma sameView_fields:
  assumes "sameView a b"
  shows "messages b = messages a" "injectedMessages b = injectedMessages a"
    "boundSessionId b = boundSessionId a" "tick b = tick a" "chatLog b = chatLog a"
    "executed b = executed a" "isSubagent b = isSubagent a" "trace b = trace a"
proof -
  from assms have b: "b = a\<lparr>transcript := transcript b\<rparr>" by (simp add: sameView_def)
  show "messages b = messages a" by (subst b) simp
  show "injectedMessages b = injectedMessages a" by (subst b) simp
  show "boundSessionId b = boundSessionId a" by (subst b) simp
  show "tick b = tick a" by (subst b) simp
  show "chatLog b = chatLog a" by (subst b) simp
  show "executed b = executed a" by (subst b) simp
  show "isSubagent b = isSubagent a" by (subst b) simp
  show "trace b = trace a" by (subst b) simp
qed

lemma sameView_transcript [simp]: "sameView a (a\<lparr>transcript := t\<rparr>)"
  by (simp add: sameView_def)

lemma sameView_update:
  assumes "sameView a b"
  shows "sameView (a\<lparr>messages := m\<rparr>) (b\<lparr>messages := m\<rparr>)"
    "sameView (a\<lparr>injectedMessages := q\<rparr>) (b\<lparr>injectedMessages := q\<rparr>)"
    "sameView (a\<lparr>chatLog := c\<rparr>) (b\<lparr>chatLog := c\<rparr>)"
    "sameView (a\<lparr>executed := e\<rparr>) (b\<lparr>executed := e\<rparr>)"
    "sameView (a\<lparr>tick := k\<rparr>) (b\<lparr>tick := k\<rparr>)"
    "sameView (a\<lparr>transcript := t\<rparr>) (b\<lparr>transcript := t'\<rparr>)"
    "sameView (a\<lparr>trace := o\<^sub>c\<rparr>) (b\<lparr>trace := o\<^sub>c\<rparr>)"
proof -
  from assms have b: "b = a\<lparr>transcript := transcript b\<rparr>" by (simp add: sameView_def)
  show "sameView (a\<lparr>messages := m\<rparr>) (b\<lparr>messages := m\<rparr>)"
    by (subst b) (simp add: sameView_def)
  show "sameView (a\<lparr>injectedMessages := q\<rparr>) (b\<lparr>injectedMessages := q\<rparr>)"
    by (subst b) (simp add: sameView_def)
  show "sameView (a\<lparr>chatLog := c\<rparr>) (b\<lparr>chatLog := c\<rparr>)"
    by (subst b) (simp add: sameView_def)
  show "sameView (a\<lparr>executed := e\<rparr>) (b\<lparr>executed := e\<rparr>)"
    by (subst b) (simp add: sameView_def)
  show "sameView (a\<lparr>tick := k\<rparr>) (b\<lparr>tick := k\<rparr>)"
    by (subst b) (simp add: sameView_def)
  show "sameView (a\<lparr>transcript := t\<rparr>) (b\<lparr>transcript := t'\<rparr>)"
    by (subst b) (simp add: sameView_def)
  show "sameView (a\<lparr>trace := o\<^sub>c\<rparr>) (b\<lparr>trace := o\<^sub>c\<rparr>)"
    by (subst b) (simp add: sameView_def)
qed

lemma sameView_persistMessage:
  "sameView a b \<Longrightarrow> sameView (persistMessage env m a) (persistMessage env' m b)"
  by (auto simp: persistMessage_def sameView_fields sameView_update split: option.splits)

lemma sameView_pushPersist:
  "sameView a b \<Longrightarrow> sameView (pushPersist env m a) (pushPersist env' m b)"
  unfolding pushPersist_def
  by (intro sameView_persistMessage) (simp add: sameView_fields sameView_update)

lemma sameView_absorb:
  assumes "sameView a b" "steered io' = steered io"
  shows "sameView (absorb io a) (absorb io' b)"
proof -
  have "sameView (a\<lparr>injectedMessages := injectedMessages a @ steered io\<rparr>)
                 (b\<lparr>injectedMessages := injectedMessages a @ steered io\<rparr>)"
    using assms(1) by (rule sameView_update)
  then have "sameView (a\<lparr>injectedMessages := injectedMessages a @ steered io, transcript := t\<rparr>)
                 (b\<lparr>injectedMessages := injectedMessages a @ steered io, transcript := t'\<rparr>)" for t t'
    by (rule sameView_update)
  then have "sameView (a\<lparr>injectedMessages := injectedMessages a @ steered io, transcript := t,
                          tick := tick a + 1\<rparr>)
                 (b\<lparr>injectedMessages := injectedMessages a @ steered io, transcript := t',
                          tick := tick a + 1\<rparr>)" for t t'
    by (rule sameView_update)
  then show ?thesis
    using assms by (simp add: absorb_def sameView_fields)
qed

lemma sameView_drainInjected:
  assumes "sameView a b"
  shows "sameView (drainInjected a) (drainInjected b)"
proof (cases "injectedMessages a")
  case Nil
  with assms show ?thesis by (simp add: drainInjected_def sameView_fields)
next
  case (Cons m rest)
  have "sameView (a\<lparr>injectedMessages := rest\<rparr>) (b\<lparr>injectedMessages := rest\<rparr>)"
    using assms by (rule sameView_update)
  then have "sameView (a\<lparr>injectedMessages := rest, messages := messages a @ [interruptMsg m]\<rparr>)
      (b\<lparr>injectedMessages := rest, messages := messages a @ [interruptMsg m]\<rparr>)"
    by (rule sameView_update)
  with Cons assms show ?thesis by (simp add: drainInjected_def sameView_fields)
qed

lemma chat_muteEnv:
  "chat (muteEnv env) n ms sch = (case chat env n ms sch of (r, io) \<Rightarrow> (r, muteIO io))"
  by (simp add: muteEnv_def)

lemma steered_muteIO [simp]: "steered (muteIO io) = steered io"
  by (simp add: muteIO_def)

lemma callLLM_muteEnv:
  assumes "sameView a b"
  shows "fst (callLLM (muteEnv env) s b) = fst (callLLM env s a) \<and>
         sameView (snd (callLLM env s a)) (snd (callLLM (muteEnv env) s b))"
proof -
  obtain r io where c: "chat env (tick a) (messages a) s = (r, io)"
    by (cases "chat env (tick a) (messages a) s")
  have v0: "sameView (a\<lparr>chatLog := chatLog a @ [messages a]\<rparr>) (b\<lparr>chatLog := chatLog a @ [messages a]\<rparr>)"
    using assms by (rule sameView_update)
  have v: "sameView (a\<lparr>chatLog := chatLog a @ [messages a], trace := trace a @ [modelOutcome r]\<rparr>)
                    (b\<lparr>chatLog := chatLog a @ [messages a], trace := trace a @ [modelOutcome r]\<rparr>)"
    using v0 by (rule sameView_update)
  have "sameView (absorb io (a\<lparr>chatLog := chatLog a @ [messages a], trace := trace a @ [modelOutcome r]\<rparr>))
                 (absorb (muteIO io) (b\<lparr>chatLog := chatLog a @ [messages a], trace := trace a @ [modelOutcome r]\<rparr>))"
    by (rule sameView_absorb[OF v]) simp
  with c assms show ?thesis
    by (simp add: callLLM_def chat_muteEnv sameView_fields)
qed

lemma toolName_muteTool [simp]: "toolName (muteTool t) = toolName t"
  by (simp add: muteTool_def)

lemma find_map_muteTool:
  "List.find (\<lambda>t. toolName t = name) (map muteTool ts)
     = map_option muteTool (List.find (\<lambda>t. toolName t = name) ts)"
  by (induction ts) simp_all

lemma getToolByName_muteEnv:
  "getToolByName (tools (muteEnv env)) name = map_option muteTool (getToolByName (tools env) name)"
  using find_map_muteTool[of name "builtinTools (tools env) @ composioTools (tools env)"]
  by (simp add: getToolByName_def getAllTools_def muteEnv_def)

lemma getToolSchemas_muteEnv:
  "getToolSchemas (tools (muteEnv env)) isSub = getToolSchemas (tools env) isSub"
  by (simp add: getToolSchemas_def getAllTools_def muteEnv_def Let_def filter_map comp_def
      muteTool_def)

lemma execute_muteTool:
  "execute (muteTool t) inp n = (case execute t inp n of (r, io) \<Rightarrow> (r, muteIO io))"
  by (simp add: muteTool_def)

lemma executeTools_muteEnv:
  "sameView a b \<Longrightarrow>
   fst (executeTools (muteEnv env) tcs b) = fst (executeTools env tcs a) \<and>
   sameView (snd (executeTools env tcs a)) (snd (executeTools (muteEnv env) tcs b))"
proof (induction tcs arbitrary: a b)
  case Nil
  then show ?case by simp
next
  case (Cons tc tcs)
  show ?case
  proof (cases "getToolByName (tools env) (tcName tc)")
    case None
    have "sameView (pushPersist env (toolMsg tc (''Error: Unknown tool '' @ tcName tc)) a)
                   (pushPersist (muteEnv env) (toolMsg tc (''Error: Unknown tool '' @ tcName tc)) b)"
      using Cons.prems by (rule sameView_pushPersist)
    from Cons.IH[OF this] None show ?thesis
      by (simp add: getToolByName_muteEnv)
  next
    case (Some tool)
    obtain r io where e: "execute tool (tcInput tc) (tick a) = (r, io)"
      by (cases "execute tool (tcInput tc) (tick a)")
    have v00: "sameView (a\<lparr>executed := executed a @ [tc]\<rparr>) (b\<lparr>executed := executed a @ [tc]\<rparr>)"
      using Cons.prems by (rule sameView_update)
    have v0: "sameView (a\<lparr>executed := executed a @ [tc], trace := k\<rparr>)
                       (b\<lparr>executed := executed a @ [tc], trace := k\<rparr>)" for k
      using v00 by (rule sameView_update)
    have v1: "sameView (absorb io (a\<lparr>executed := executed a @ [tc], trace := k\<rparr>))
                       (absorb (muteIO io) (b\<lparr>executed := executed a @ [tc], trace := k\<rparr>))" for k
      by (rule sameView_absorb[OF v0]) simp
    show ?thesis
    proof (cases r)
      case (Inl f)
      with Some e v1 Cons.prems show ?thesis
        by (simp add: getToolByName_muteEnv execute_muteTool sameView_fields)
    next
      case (Inr out)
      have "sameView (pushPersist env (toolMsg tc out)
                        (absorb io (a\<lparr>executed := executed a @ [tc],
                                      trace := trace a @ [ToolReturned out]\<rparr>)))
                     (pushPersist (muteEnv env) (toolMsg tc out)
                        (absorb (muteIO io) (b\<lparr>executed := executed a @ [tc],
                                               trace := trace a @ [ToolReturned out]\<rparr>)))"
        using v1 by (rule sameView_pushPersist)
      from Cons.IH[OF this] Some e Inr Cons.prems show ?thesis
        by (simp add: getToolByName_muteEnv execute_muteTool sameView_fields)
    qed
  qed
qed

lemma mainStep_muteEnv:
  assumes v: "sameView a b"
  shows "fst (mainStep (muteEnv env) s l b) = fst (mainStep env s l a) \<and>
         fst (snd (mainStep (muteEnv env) s l b)) = fst (snd (mainStep env s l a)) \<and>
         sameView (snd (snd (mainStep env s l a))) (snd (snd (mainStep (muteEnv env) s l b)))"
proof -
  have d: "sameView (drainInjected a) (drainInjected b)"
    using v by (rule sameView_drainInjected)
  obtain r a2 where ca: "callLLM env s (drainInjected a) = (r, a2)"
    by (cases "callLLM env s (drainInjected a)")
  obtain r' b2 where cb: "callLLM (muteEnv env) s (drainInjected b) = (r', b2)"
    by (cases "callLLM (muteEnv env) s (drainInjected b)")
  from callLLM_muteEnv[OF d, where env = env and s = s] ca cb have rr: "r' = r" and v2: "sameView a2 b2"
    by simp_all
  show ?thesis
  proof (cases r)
    case (Inl f)
    with ca cb rr v2 show ?thesis by (simp add: mainStep_def)
  next
    case (Inr resp)
    have vp: "sameView (pushPersist env (assistantWithCalls resp) a2)
                       (pushPersist (muteEnv env) (assistantWithCalls resp) b2)"
      using v2 by (rule sameView_pushPersist)
    obtain ra a3 where ea: "executeTools env (respToolCalls resp)
        (pushPersist env (assistantWithCalls resp) a2) = (ra, a3)"
      by (cases "executeTools env (respToolCalls resp) (pushPersist env (assistantWithCalls resp) a2)")
    obtain rb b3 where eb: "executeTools (muteEnv env) (respToolCalls resp)
        (pushPersist (muteEnv env) (assistantWithCalls resp) b2) = (rb, b3)"
      by (cases "executeTools (muteEnv env) (respToolCalls resp)
            (pushPersist (muteEnv env) (assistantWithCalls resp) b2)")
    from executeTools_muteEnv[OF vp, where tcs = "respToolCalls resp" and env = env] ea eb
    have rab: "rb = ra" and v3: "sameView a3 b3" by simp_all
    have vf: "sameView (pushPersist env (plainMsg AssistantRole (respContent resp)) a2)
                       (pushPersist (muteEnv env) (plainMsg AssistantRole (respContent resp)) b2)"
      using v2 by (rule sameView_pushPersist)
    have q2: "injectedMessages b2 = injectedMessages a2"
      using v2 by (rule sameView_fields)
    have qf: "injectedMessages (pushPersist (muteEnv env) (plainMsg AssistantRole (respContent resp)) b2)
        = injectedMessages (pushPersist env (plainMsg AssistantRole (respContent resp)) a2)"
      using vf by (rule sameView_fields)
    show ?thesis
      using ca cb rr Inr ea eb rab v3 vf v2 q2 qf
      by (simp add: mainStep_def Let_def split: option.splits)
  qed
qed

lemma mainLoop_muteEnv:
  "sameView a b \<Longrightarrow>
   fst (mainLoop (muteEnv env) s it l b) = fst (mainLoop env s it l a) \<and>
   fst (snd (mainLoop (muteEnv env) s it l b)) = fst (snd (mainLoop env s it l a)) \<and>
   fst (snd (snd (mainLoop (muteEnv env) s it l b))) = fst (snd (snd (mainLoop env s it l a))) \<and>
   sameView (snd (snd (snd (mainLoop env s it l a)))) (snd (snd (snd (mainLoop (muteEnv env) s it l b))))"
proof (induction env s it l a arbitrary: b rule: mainLoop.induct)
  case (1 env s it l a)
  show ?case
  proof (cases "it < maxIterations")
    case False
    with "1.prems" show ?thesis by simp
  next
    case True
    obtain c l1 a1 where sa: "mainStep env s l a = (c, l1, a1)"
      by (cases "mainStep env s l a") auto
    obtain c' l1' b1 where sb: "mainStep (muteEnv env) s l b = (c', l1', b1)"
      by (cases "mainStep (muteEnv env) s l b") auto
    from mainStep_muteEnv[OF "1.prems", where env = env and s = s and l = l] sa sb
    have cc: "c' = c" and ll: "l1' = l1" and v1: "sameView a1 b1" by simp_all
    show ?thesis
    proof (cases c)
      case Continue
      from "1.IH"[OF True sa[symmetric] _ _ v1] Continue
      have "fst (mainLoop (muteEnv env) s (it + 1) l1 b1) = fst (mainLoop env s (it + 1) l1 a1) \<and>
        fst (snd (mainLoop (muteEnv env) s (it + 1) l1 b1)) = fst (snd (mainLoop env s (it + 1) l1 a1)) \<and>
        fst (snd (snd (mainLoop (muteEnv env) s (it + 1) l1 b1)))
          = fst (snd (snd (mainLoop env s (it + 1) l1 a1))) \<and>
        sameView (snd (snd (snd (mainLoop env s (it + 1) l1 a1))))
          (snd (snd (snd (mainLoop (muteEnv env) s (it + 1) l1 b1))))"
        by simp
      with True sa sb cc ll Continue show ?thesis by simp
    next
      case Break
      with True sa sb cc ll v1 show ?thesis by simp
    next
      case (Raise f)
      with True sa sb cc ll v1 show ?thesis by simp
    qed
  qed
qed

lemma now_muteEnv [simp]: "now (muteEnv env) = now env"
  by (simp add: muteEnv_def)

lemma persistMessage_muteEnv [simp]: "persistMessage (muteEnv env) m w = persistMessage env m w"
  by (simp add: persistMessage_def split: option.splits)

lemma startRun_muteEnv [simp]: "startRun (muteEnv env) u src w = startRun env u src w"
  by (simp add: startRun_def pushPersist_def Let_def)

lemma sameView_isRunning:
  assumes "sameView a b"
  shows "sameView (a\<lparr>isRunning := x\<rparr>) (b\<lparr>isRunning := x\<rparr>)"
proof -
  from assms have b: "b = a\<lparr>transcript := transcript b\<rparr>" by (simp add: sameView_def)
  show ?thesis by (subst b) (simp add: sameView_def)
qed

lemma run_muteEnv:
  "fst (run (muteEnv env) u src w) = fst (run env u src w) \<and>
   sameView (snd (run env u src w)) (snd (run (muteEnv env) u src w))"
proof -
  let ?w1 = "startRun env u src w"
  let ?s = "getToolSchemas (tools env) (isSubagent ?w1)"
  let ?l0 = "\<lparr>finalResponse = [], emptyRetries = 0\<rparr>"
  obtain r it l a2 where ma: "mainLoop env ?s 0 ?l0 ?w1 = (r, it, l, a2)"
    by (cases "mainLoop env ?s 0 ?l0 ?w1") auto
  obtain r' it' l' b2 where mb: "mainLoop (muteEnv env) ?s 0 ?l0 ?w1 = (r', it', l', b2)"
    by (cases "mainLoop (muteEnv env) ?s 0 ?l0 ?w1") auto
  from mainLoop_muteEnv[OF sameView_refl, where env = env and s = ?s and it = 0 and l = ?l0 and a = ?w1] ma mb
  have e: "r' = r" "l' = l" and v: "sameView a2 b2" by simp_all
  have vr: "sameView (a2\<lparr>isRunning := False\<rparr>) (b2\<lparr>isRunning := False\<rparr>)"
    using v by (rule sameView_isRunning)
  show ?thesis
    using ma mb e vr
    by (cases r) (simp_all add: run_after_mainLoop getToolSchemas_muteEnv caught_def finish_def)
qed

lemma mainLoop_chatLog_extends:
  "\<exists>rest. chatLog (snd (snd (snd (mainLoop env s it l w)))) = chatLog w @ rest"
proof (induction env s it l w rule: mainLoop.induct)
  case (1 env s it l w)
  show ?case
  proof (cases "it < maxIterations")
    case False
    then show ?thesis by simp
  next
    case True
    obtain c l1 w1 where st: "mainStep env s l w = (c, l1, w1)"
      by (cases "mainStep env s l w") auto
    have c1: "chatLog w1 = chatLog w @ [messages (drainInjected w)]"
      using chatLog_mainStep[of env s l w] st by simp
    show ?thesis
    proof (cases c)
      case Continue
      from "1.IH"[OF True st[symmetric] _ _] Continue
      obtain rest where "chatLog (snd (snd (snd (mainLoop env s (it + 1) l1 w1)))) = chatLog w1 @ rest"
        by auto
      with True st Continue c1 show ?thesis by simp
    next
      case Break
      with True st c1 show ?thesis by simp
    next
      case (Raise f)
      with True st c1 show ?thesis by simp
    qed
  qed
qed

lemma mainLoop_first_call:
  assumes "it < maxIterations"
  shows "\<exists>rest. chatLog (snd (snd (snd (mainLoop env s it l w))))
           = chatLog w @ messages (drainInjected w) # rest"
proof -
  obtain c l1 w1 where st: "mainStep env s l w = (c, l1, w1)"
    by (cases "mainStep env s l w") auto
  have c1: "chatLog w1 = chatLog w @ [messages (drainInjected w)]"
    using chatLog_mainStep[of env s l w] st by simp
  show ?thesis
  proof (cases c)
    case Continue
    obtain rest where "chatLog (snd (snd (snd (mainLoop env s (it + 1) l1 w1)))) = chatLog w1 @ rest"
      using mainLoop_chatLog_extends[of env s "it + 1" l1 w1] by auto
    with assms st Continue c1 show ?thesis by simp
  next
    case Break
    with assms st c1 show ?thesis by simp
  next
    case (Raise f)
    with assms st c1 show ?thesis by simp
  qed
qed

lemma run_first_call:
  "\<exists>rest. chatLog (snd (run env u src w))
     = chatLog w @ messages (drainInjected (startRun env u src w)) # rest"
proof -
  let ?w1 = "startRun env u src w"
  let ?s = "getToolSchemas (tools env) (isSubagent ?w1)"
  let ?l0 = "\<lparr>finalResponse = [], emptyRetries = 0\<rparr>"
  obtain r it l w2 where m: "mainLoop env ?s 0 ?l0 ?w1 = (r, it, l, w2)"
    by (cases "mainLoop env ?s 0 ?l0 ?w1") auto
  have "0 < maxIterations" by (simp add: maxIterations_def)
  from mainLoop_first_call[OF this, of env ?s ?l0 ?w1] m
  obtain rest where "chatLog w2 = chatLog w @ messages (drainInjected ?w1) # rest"
    by auto
  with m show ?thesis
    by (cases r) (simp_all add: run_after_mainLoop)
qed

lemma messages_persistMessage [simp]: "messages (persistMessage env m w) = messages w"
  by (simp add: persistMessage_def split: option.splits)

lemma messages_startRun_synced:
  assumes "boundSessionId w \<noteq> None"
  shows "\<exists>tail. messages (drainInjected (startRun env u src w))
     = messages w @ drop (length (messages w)) (map toMessage (transcript w)) @ tail"
proof -
  have s: "messages (syncTranscript (w\<lparr>isRunning := True\<rparr>))
      = messages w @ drop (length (messages w)) (map toMessage (transcript w))"
    using assms by (auto simp: syncTranscript_def Let_def)
  have "\<exists>t1. messages (startRun env u src w)
      = messages (syncTranscript (w\<lparr>isRunning := True\<rparr>)) @ t1"
    by (simp add: startRun_def Let_def pushPersist_def)
  then obtain t1 where t1: "messages (startRun env u src w)
      = messages w @ drop (length (messages w)) (map toMessage (transcript w)) @ t1"
    using s by auto
  have "\<exists>t2. messages (drainInjected (startRun env u src w)) = messages (startRun env u src w) @ t2"
    by (simp add: drainInjected_def split: list.splits)
  with t1 show ?thesis by auto
qed

subsection \<open>When the transcript is read (C4)\<close>

text \<open>
  Claim C4, as amended.  A run reads the transcript once, at its start and before the
  loop: with a bound session, the conversation of the first model call begins with the
  in-memory conversation followed by the transcript entries beyond its length.  Inside
  the loop the transcript is not read again: the result of the run and the conversation
  handed to every model call are the same when nothing is appended to the transcript from
  outside during the run.
\<close>

theorem transcript_read_once_at_run_start:
  assumes "boundSessionId w \<noteq> None"
  shows "(\<exists>tail rest. chatLog (snd (run env userMessage source w))
            = chatLog w @
              (messages w @ drop (length (messages w)) (map toMessage (transcript w)) @ tail) # rest)
    \<and> chatLog (snd (run (muteEnv env) userMessage source w))
        = chatLog (snd (run env userMessage source w))
    \<and> messages (snd (run (muteEnv env) userMessage source w))
        = messages (snd (run env userMessage source w))
    \<and> fst (run (muteEnv env) userMessage source w) = fst (run env userMessage source w)"
proof (intro conjI)
  obtain rest where r: "chatLog (snd (run env userMessage source w))
     = chatLog w @ messages (drainInjected (startRun env userMessage source w)) # rest"
    using run_first_call by blast
  obtain tail where t: "messages (drainInjected (startRun env userMessage source w))
     = messages w @ drop (length (messages w)) (map toMessage (transcript w)) @ tail"
    using messages_startRun_synced[OF assms] by blast
  show "\<exists>tail rest. chatLog (snd (run env userMessage source w))
            = chatLog w @
              (messages w @ drop (length (messages w)) (map toMessage (transcript w)) @ tail) # rest"
    using r t by auto
next
  have v: "sameView (snd (run env userMessage source w)) (snd (run (muteEnv env) userMessage source w))"
    using run_muteEnv by blast
  show "chatLog (snd (run (muteEnv env) userMessage source w))
        = chatLog (snd (run env userMessage source w))"
    using v by (rule sameView_fields)
  show "messages (snd (run (muteEnv env) userMessage source w))
        = messages (snd (run env userMessage source w))"
    using v by (rule sameView_fields)
  show "fst (run (muteEnv env) userMessage source w) = fst (run env userMessage source w)"
    using run_muteEnv by blast
qed

theorem transcript_read_once_at_run_start_witness:
  "boundSessionId resumedRunner \<noteq> None
   \<and> map (map content) (chatLog (snd (run (scriptedEnv (always (sayText ''ok''))) ''go'' FromUser resumedRunner)))
       = [[''SYS'', ''hi'', ''side note'', ''go'']]
   \<and> chatLog (snd (run (muteEnv (scriptedEnv (always (sayText ''ok'')))) ''go'' FromUser resumedRunner))
       = chatLog (snd (run (scriptedEnv (always (sayText ''ok''))) ''go'' FromUser resumedRunner))"
proof -
  have b: "boundSessionId resumedRunner \<noteq> None"
    by (simp add: resumedRunner_def idleRunner_def)
  have e: "map (map content) (chatLog (snd (run (scriptedEnv (always (sayText ''ok''))) ''go'' FromUser resumedRunner)))
       = [[''SYS'', ''hi'', ''side note'', ''go'']]"
    by (simp add: run_defs example_runner_defs resumedRunner_def)
  show ?thesis
    using transcript_read_once_at_run_start [OF b, of "scriptedEnv (always (sayText ''ok''))" "''go''" FromUser] b e
    by simp
qed

text \<open>
  Claim C4 as stated fails.  The first model response calls \<open>session_send\<close>, which
  appends the entry \<open>side note\<close> to the transcript before the tool result is written;
  the second model call of the same run gets a conversation without that entry.
\<close>

theorem loop_does_not_see_side_channel_entry:
  "map content (transcript (snd (run
        (scriptedEnv (scriptThen (callOf ''session_send'') (sayText ''ok'')))
        ''go'' FromUser (idleRunner False []))))
      = [''SYS'', ''go'', [], ''side note'', ''{\"success\":true}'', ''ok'']
   \<and> map (map content) (chatLog (snd (run
        (scriptedEnv (scriptThen (callOf ''session_send'') (sayText ''ok'')))
        ''go'' FromUser (idleRunner False []))))
      = [[''SYS'', ''go''], [''SYS'', ''go'', [], ''{\"success\":true}'']]"
  by (simp add: run_defs example_runner_defs)

subsection \<open>What a run appends to the transcript\<close>

lemma bound_persistMessage [simp]: "boundSessionId (persistMessage env m w) = boundSessionId w"
  by (simp add: persistMessage_def split: option.splits)

lemma bound_pushPersist [simp]: "boundSessionId (pushPersist env m w) = boundSessionId w"
  by (simp add: pushPersist_def)

lemma bound_absorb [simp]: "boundSessionId (absorb io w) = boundSessionId w"
  by (simp add: absorb_def)

lemma bound_drainInjected [simp]: "boundSessionId (drainInjected w) = boundSessionId w"
  by (simp add: drainInjected_def split: list.splits)

lemma bound_callLLM [simp]: "boundSessionId (snd (callLLM env s w)) = boundSessionId w"
  by (simp add: callLLM_def split: prod.splits)

lemma bound_executeTools [simp]: "boundSessionId (snd (executeTools env tcs w)) = boundSessionId w"
  by (induction env tcs w rule: executeTools.induct)
     (auto split: option.splits prod.splits sum.splits)

lemma bound_startRun [simp]: "boundSessionId (startRun env u src w) = boundSessionId w"
  by (simp add: startRun_def Let_def syncTranscript_def split: option.splits)

lemma transcript_pushPersist:
  "boundSessionId w \<noteq> None \<Longrightarrow>
   transcript (pushPersist env m w) = transcript w @ [stamp (now env (tick w)) m]"
  by (auto simp: pushPersist_def persistMessage_def split: option.splits)

lemma transcript_pushPersist_grows: "\<exists>ext. transcript (pushPersist env m w) = transcript w @ ext"
  by (simp add: pushPersist_def persistMessage_def split: option.splits)

lemma transcript_absorb_grows: "\<exists>ext. transcript (absorb io w) = transcript w @ ext"
  by (simp add: absorb_def split: option.splits)

lemma transcript_drainInjected [simp]: "transcript (drainInjected w) = transcript w"
  by (simp add: drainInjected_def split: list.splits)

lemma transcript_callLLM_grows: "\<exists>ext. transcript (snd (callLLM env s w)) = transcript w @ ext"
  by (simp add: callLLM_def absorb_def split: prod.splits option.splits)

lemma transcript_executeTools_grows:
  "\<exists>ext. transcript (snd (executeTools env tcs w)) = transcript w @ ext"
proof (induction tcs arbitrary: w)
  case Nil
  show ?case by simp
next
  case (Cons tc tcs)
  show ?case
  proof (cases "getToolByName (tools env) (tcName tc)")
    case None
    let ?w1 = "pushPersist env (toolMsg tc (''Error: Unknown tool '' @ tcName tc)) w"
    obtain e1 where e1: "transcript ?w1 = transcript w @ e1"
      using transcript_pushPersist_grows by blast
    obtain e2 where "transcript (snd (executeTools env tcs ?w1)) = transcript ?w1 @ e2"
      using Cons by blast
    with e1 None show ?thesis by simp
  next
    case (Some tool)
    obtain r io where e: "execute tool (tcInput tc) (tick w) = (r, io)"
      by (cases "execute tool (tcInput tc) (tick w)")
    have grows: "\<exists>e1. transcript (absorb io (w\<lparr>executed := executed w @ [tc], trace := k\<rparr>)) =
                       transcript w @ e1" for k
      using transcript_absorb_grows[of io "w\<lparr>executed := executed w @ [tc], trace := k\<rparr>"] by auto
    show ?thesis
    proof (cases r)
      case (Inl f)
      with Some e grows[of "trace w @ [ToolThrew f]"] show ?thesis by simp
    next
      case (Inr out)
      let ?w1 = "absorb io (w\<lparr>executed := executed w @ [tc], trace := trace w @ [ToolReturned out]\<rparr>)"
      obtain e1 where e1: "transcript ?w1 = transcript w @ e1"
        using grows[of "trace w @ [ToolReturned out]"] by blast
      let ?w2 = "pushPersist env (toolMsg tc out) ?w1"
      obtain e2 where e2: "transcript ?w2 = transcript ?w1 @ e2"
        using transcript_pushPersist_grows by blast
      obtain e3 where "transcript (snd (executeTools env tcs ?w2)) = transcript ?w2 @ e3"
        using Cons by blast
      with Some e Inr e1 e2 show ?thesis by simp
    qed
  qed
qed

text \<open>A step that sets \<open>finalResponse\<close> writes an assistant entry with that content.\<close>

lemma mainStep_records_final:
  assumes b: "boundSessionId w \<noteq> None"
  shows "\<exists>ext. transcript (snd (snd (mainStep env s l w))) = transcript w @ ext \<and>
     (finalResponse (fst (snd (mainStep env s l w))) = finalResponse l \<or>
      (\<exists>e \<in> set ext. role e = AssistantRole \<and>
          content e = finalResponse (fst (snd (mainStep env s l w)))))"
proof -
  obtain r w2 where c: "callLLM env s (drainInjected w) = (r, w2)"
    by (cases "callLLM env s (drainInjected w)")
  obtain e1 where e1: "transcript w2 = transcript w @ e1"
    using transcript_callLLM_grows[of env s "drainInjected w"] c by auto
  have b2: "boundSessionId w2 \<noteq> None"
    using bound_callLLM[of env s "drainInjected w"] c b by simp
  show ?thesis
  proof (cases r)
    case (Inl f)
    with c e1 show ?thesis by (simp add: mainStep_def)
  next
    case (Inr resp)
    show ?thesis
    proof (cases "respToolCalls resp = []")
      case noCalls: True
      show ?thesis
      proof (cases "respContent resp = []")
        case True
        with c Inr noCalls e1 show ?thesis by (simp add: mainStep_def Let_def)
      next
        case False
        let ?m = "plainMsg AssistantRole (respContent resp)"
        have t: "transcript (pushPersist env ?m w2) = transcript w @ e1 @ [stamp (now env (tick w2)) ?m]"
          using transcript_pushPersist[OF b2, of env ?m] e1 by simp
        have "role (stamp (now env (tick w2)) ?m) = AssistantRole \<and>
              content (stamp (now env (tick w2)) ?m) = respContent resp"
          by (simp add: stamp_def plainMsg_def)
        with c Inr noCalls False t show ?thesis
          by (auto simp: mainStep_def Let_def)
      qed
    next
      case calls: False
      let ?m = "assistantWithCalls resp"
      let ?w3 = "pushPersist env ?m w2"
      have t: "transcript ?w3 = transcript w @ e1 @ [stamp (now env (tick w2)) ?m]"
        using transcript_pushPersist[OF b2, of env ?m] e1 by simp
      obtain r4 w4 where x: "executeTools env (respToolCalls resp) ?w3 = (r4, w4)"
        by (cases "executeTools env (respToolCalls resp) ?w3")
      obtain e3 where e3: "transcript w4 = transcript ?w3 @ e3"
        using transcript_executeTools_grows[of env "respToolCalls resp" ?w3] x by auto
      have rc: "role (stamp (now env (tick w2)) ?m) = AssistantRole \<and>
            content (stamp (now env (tick w2)) ?m) = respContent resp"
        by (simp add: stamp_def assistantWithCalls_def)
      have tr: "transcript w4 = transcript w @ (e1 @ [stamp (now env (tick w2)) ?m] @ e3)"
        using t e3 by simp
      have mem: "stamp (now env (tick w2)) ?m \<in> set (e1 @ [stamp (now env (tick w2)) ?m] @ e3)"
        by simp
      have fr: "finalResponse (fst (snd (mainStep env s l w)))
          = (if respContent resp \<noteq> [] then respContent resp else finalResponse l)"
        using c Inr calls x by (simp add: mainStep_def Let_def split: option.splits)
      have tw: "transcript (snd (snd (mainStep env s l w))) = transcript w4"
        using c Inr calls x by (simp add: mainStep_def Let_def split: option.splits)
      show ?thesis
        unfolding tw fr using tr mem rc by (intro exI[of _ "e1 @ [stamp (now env (tick w2)) ?m] @ e3"]) auto
    qed
  qed
qed

lemma bound_mainStep [simp]: "boundSessionId (snd (snd (mainStep env s l w))) = boundSessionId w"
proof -
  obtain r w2 where c: "callLLM env s (drainInjected w) = (r, w2)"
    by (cases "callLLM env s (drainInjected w)")
  have b2: "boundSessionId w2 = boundSessionId w"
    using bound_callLLM[of env s "drainInjected w"] c by simp
  show ?thesis
  proof (cases r)
    case (Inl f)
    with c b2 show ?thesis by (simp add: mainStep_def)
  next
    case (Inr resp)
    obtain r4 w4 where x: "executeTools env (respToolCalls resp)
        (pushPersist env (assistantWithCalls resp) w2) = (r4, w4)"
      by (cases "executeTools env (respToolCalls resp) (pushPersist env (assistantWithCalls resp) w2)")
    have "boundSessionId w4 = boundSessionId w"
      using bound_executeTools[of env "respToolCalls resp" "pushPersist env (assistantWithCalls resp) w2"]
        x b2 by simp
    with c Inr x b2 show ?thesis
      by (simp add: mainStep_def Let_def split: option.splits)
  qed
qed

lemma mainLoop_records_final:
  "boundSessionId w \<noteq> None \<Longrightarrow>
   \<exists>ext. transcript (snd (snd (snd (mainLoop env s it l w)))) = transcript w @ ext \<and>
     (finalResponse (fst (snd (snd (mainLoop env s it l w)))) = finalResponse l \<or>
      (\<exists>e \<in> set ext. role e = AssistantRole \<and>
          content e = finalResponse (fst (snd (snd (mainLoop env s it l w))))))"
proof (induction env s it l w rule: mainLoop.induct)
  case (1 env s it l w)
  show ?case
  proof (cases "it < maxIterations")
    case False
    then show ?thesis by simp
  next
    case True
    obtain c l1 w1 where st: "mainStep env s l w = (c, l1, w1)"
      by (cases "mainStep env s l w") auto
    obtain e1 where e1: "transcript w1 = transcript w @ e1"
      "finalResponse l1 = finalResponse l \<or>
        (\<exists>e \<in> set e1. role e = AssistantRole \<and> content e = finalResponse l1)"
      using mainStep_records_final[OF "1.prems", of env s l] st by auto
    have b1: "boundSessionId w1 \<noteq> None"
      using bound_mainStep[of env s l w] st "1.prems" by simp
    show ?thesis
    proof (cases c)
      case Continue
      let ?r = "mainLoop env s (it + 1) l1 w1"
      from "1.IH"[OF True st[symmetric] _ _ b1] Continue
      obtain e2 where e2: "transcript (snd (snd (snd ?r))) = transcript w1 @ e2"
        "finalResponse (fst (snd (snd ?r))) = finalResponse l1 \<or>
          (\<exists>e \<in> set e2. role e = AssistantRole \<and> content e = finalResponse (fst (snd (snd ?r))))"
        by auto
      have eq: "mainLoop env s it l w = ?r"
        using True st Continue by simp
      show ?thesis
        unfolding eq using e1 e2 by (intro exI[of _ "e1 @ e2"]) auto
    next
      case Break
      with True st e1 show ?thesis by auto
    next
      case (Raise f)
      with True st e1 show ?thesis by auto
    qed
  qed
qed

lemma transcript_startRun_grows: "\<exists>ext. transcript (startRun env u src w) = transcript w @ ext"
proof -
  have s: "transcript (syncTranscript (w\<lparr>isRunning := True\<rparr>)) = transcript w"
    by (simp add: syncTranscript_def Let_def split: option.splits)
  let ?w1 = "syncTranscript (w\<lparr>isRunning := True\<rparr>)"
  let ?w2 = "if messages ?w1 = [] then pushPersist env (plainMsg SystemRole (fullSystemPrompt ?w1)) ?w1 else ?w1"
  obtain e1 where e1: "transcript ?w2 = transcript w @ e1"
    using transcript_pushPersist_grows[of env _ ?w1] s by (cases "messages ?w1 = []") auto
  obtain e2 where "transcript (pushPersist env (frameInput src u) ?w2) = transcript ?w2 @ e2"
    using transcript_pushPersist_grows by blast
  with e1 show ?thesis by (simp add: startRun_def Let_def)
qed

lemma run_records_final:
  assumes b: "boundSessionId w \<noteq> None" and r: "run env u src w = (Completed reply, w')"
  shows "\<exists>ext. transcript w' = transcript w @ ext \<and>
     (reply = ''(done)'' \<or> (\<exists>e \<in> set ext. role e = AssistantRole \<and> content e = reply))"
proof -
  let ?w1 = "startRun env u src w"
  let ?s = "getToolSchemas (tools env) (isSubagent ?w1)"
  let ?l0 = "\<lparr>finalResponse = [], emptyRetries = 0\<rparr>"
  obtain f it l w2 where m: "mainLoop env ?s 0 ?l0 ?w1 = (f, it, l, w2)"
    by (cases "mainLoop env ?s 0 ?l0 ?w1") auto
  obtain e0 where e0: "transcript ?w1 = transcript w @ e0"
    using transcript_startRun_grows by blast
  have b1: "boundSessionId ?w1 \<noteq> None" using b by simp
  obtain e1 where e1: "transcript w2 = transcript ?w1 @ e1"
    "finalResponse l = [] \<or> (\<exists>e \<in> set e1. role e = AssistantRole \<and> content e = finalResponse l)"
    using mainLoop_records_final[OF b1, of env ?s 0 ?l0] m by auto
  have tr: "trim [] = []" by (simp add: trim_def)
  show ?thesis
  proof (cases f)
    case (Some x)
    with m r show ?thesis
      by (cases x) (simp_all add: run_after_mainLoop caught_def)
  next
    case None
    with m r have w': "w' = w2\<lparr>isRunning := False\<rparr>"
      and rep: "reply = (if trim (finalResponse l) = [] then ''(done)'' else finalResponse l)"
      by (simp_all add: run_after_mainLoop finish_def)
    have t: "transcript w' = transcript w @ (e0 @ e1)"
      using w' e0 e1 by simp
    show ?thesis
    proof (cases "trim (finalResponse l) = []")
      case True
      with rep t show ?thesis by auto
    next
      case False
      with tr have "finalResponse l \<noteq> []" by auto
      with e1 rep False have "\<exists>e \<in> set (e0 @ e1). role e = AssistantRole \<and> content e = reply"
        by auto
      with t show ?thesis by blast
    qed
  qed
qed

subsection \<open>Sentinels suppress delivery, not the transcript (C8)\<close>

text \<open>
  Claim C8.  For a run on a bound session that completes with the final response
  \<open>reply\<close>: when \<open>reply\<close>, trimmed, is \<open>NO_REPLY\<close> or \<open>(done)\<close>, the gateway's
  \<open>onComplete\<close> sends nothing on the channel; and unless \<open>reply\<close> is the fallback
  \<open>(done)\<close>, the run has appended to the transcript an assistant entry whose content is
  \<open>reply\<close>, unchanged, while every entry that was there before is kept.
\<close>

theorem sentinel_suppresses_delivery_only:
  assumes "boundSessionId w \<noteq> None" and "run env userMessage source w = (Completed reply, w')"
  shows "(trim reply = ''NO_REPLY'' \<or> trim reply = ''(done)'' \<longrightarrow> deliver calls (Completed reply) = [])
    \<and> (\<exists>ext. transcript w' = transcript w @ ext \<and>
          (reply = ''(done)'' \<or> (\<exists>e \<in> set ext. role e = AssistantRole \<and> content e = reply)))"
  using run_records_final[OF assms] by (simp add: onComplete_def)

theorem sentinel_suppresses_delivery_only_witness:
  "run (scriptedEnv (always (sayText ''NO_REPLY''))) ''ping'' FromUser (idleRunner False [])
     = (Completed ''NO_REPLY'',
        snd (run (scriptedEnv (always (sayText ''NO_REPLY''))) ''ping'' FromUser (idleRunner False [])))
   \<and> deliver [] (Completed ''NO_REPLY'') = []
   \<and> map content (transcript
        (snd (run (scriptedEnv (always (sayText ''NO_REPLY''))) ''ping'' FromUser (idleRunner False []))))
      = [''SYS'', ''ping'', ''NO_REPLY'']"
proof -
  let ?env = "scriptedEnv (always (sayText ''NO_REPLY''))"
  let ?w = "idleRunner False []"
  have b: "boundSessionId ?w \<noteq> None" by (simp add: idleRunner_def)
  have f: "fst (run ?env ''ping'' FromUser ?w) = Completed ''NO_REPLY''"
    by (simp add: run_defs example_runner_defs)
  then have r: "run ?env ''ping'' FromUser ?w = (Completed ''NO_REPLY'', snd (run ?env ''ping'' FromUser ?w))"
    by (metis prod.collapse)
  have t: "map content (transcript (snd (run ?env ''ping'' FromUser ?w))) = [''SYS'', ''ping'', ''NO_REPLY'']"
    by (simp add: run_defs example_runner_defs)
  have tr: "trim ''NO_REPLY'' = ''NO_REPLY''" by (simp add: trim_def isSpace_def)
  show ?thesis
    using sentinel_suppresses_delivery_only [OF b r, of "[]"] r t tr by simp
qed

subsection \<open>Which entries the main loop persists\<close>

lemma transcript_absorb_muteIO [simp]: "transcript (absorb (muteIO io) w) = transcript w"
  by (simp add: absorb_def muteIO_def split: option.splits)


lemma role_stamp [simp]: "role (stamp t m) = role m"
  by (simp add: stamp_def)

lemma content_stamp [simp]: "content (stamp t m) = content m"
  by (simp add: stamp_def)

lemma role_toolMsg [simp]: "role (toolMsg tc c) = ToolRole"
  by (simp add: toolMsg_def)







lemma messages_absorb [simp]: "messages (absorb io w) = messages w"
  by (simp add: absorb_def)


lemma messages_pushPersist [simp]: "messages (pushPersist env m w) = messages w @ [m]"
  by (simp add: pushPersist_def)




subsection \<open>Injected messages and the transcript (C9)\<close>



section \<open>Verification of the subagent cleanup (C1)\<close>

lemmas registry_defs = subagentLife_def runSubagentInBackground_def spawn_def
  emptySubagentWorld_def register_def markStarted_def markCompleted_def finalizeCleanup_def
  sweep_def getRun_def appendMessageMeta_def ARCHIVE_AFTER_MINUTES_def truthyNum_def
  objDelete_def

lemma keys_objSet_same:
  "map_of ps k = Some v0 \<Longrightarrow> sessionKey v = sessionKey v0 \<Longrightarrow>
   map (\<lambda>p. sessionKey (snd p)) (objSet k v ps) = map (\<lambda>p. sessionKey (snd p)) ps"
  by (induction ps) (auto split: if_splits)

lemma keys_appendMessageMeta:
  "map (\<lambda>p. sessionKey (snd p)) (appendMessageMeta store sid r c n)
     = map (\<lambda>p. sessionKey (snd p)) store"
proof (cases "map_of store sid")
  case None
  then show ?thesis by (simp add: appendMessageMeta_def)
next
  case (Some s)
  then show ?thesis
    by (simp add: appendMessageMeta_def Let_def keys_objSet_same)
qed

lemma keys_foldl_appendMessageMeta:
  "map (\<lambda>p. sessionKey (snd p))
       (foldl (\<lambda>st (r, c). appendMessageMeta st sid r c n) store entries)
     = map (\<lambda>p. sessionKey (snd p)) store"
  by (induction entries arbitrary: store) (auto simp: keys_appendMessageMeta)

text \<open>No session leaves the store during a background run, whatever the cleanup mode.\<close>

lemma runSubagentInBackground_keeps_sessions:
  "map (\<lambda>p. sessionKey (snd p))
       (sessions (runSubagentInBackground sw rid sid persisted result startMs endMs))
     = map (\<lambda>p. sessionKey (snd p)) (sessions sw)"
  by (simp add: runSubagentInBackground_def Let_def keys_foldl_appendMessageMeta)

text \<open>
  Claim C1, at the failing input.  A subagent is spawned at 1000 ms with
  \<open>cleanup = delete\<close>, runs, is announced and finalized at 5000 ms: its registry record
  is gone, but its child session \<open>subagent:r1\<close> is still in the session store.  With
  \<open>cleanup = keep\<close> the child session stays too, the record carries
  \<open>archiveAtMs\<close> = registration time + 60 minutes, and the sweeper removes the record
  at the first tick with \<open>archiveAtMs \<le> now\<close>.
\<close>

theorem cleanup_delete_leaves_child_session:
  "map sessionKey (map snd (sessions (subagentLife Delete))) = [''subagent:r1'']
   \<and> findBySessionKey (sessions (subagentLife Delete)) ''subagent:r1'' \<noteq> None
   \<and> getRun (registry (subagentLife Delete)) ''r1'' = None
   \<and> announced (subagentLife Delete) = [''r1'']
   \<and> findBySessionKey (sessions (subagentLife Keep)) ''subagent:r1'' \<noteq> None
   \<and> map_option archiveAtMs (getRun (registry (subagentLife Keep)) ''r1'') = Some (Some 3601000)
   \<and> map_option cleanupCompletedAt (getRun (registry (subagentLife Keep)) ''r1'') = Some (Some 5000)
   \<and> getRun (sweep (registry (subagentLife Keep)) 3600999) ''r1'' \<noteq> None
   \<and> getRun (sweep (registry (subagentLife Keep)) 3601000) ''r1'' = None"
  by (simp add: registry_defs session_defs Let_def)

theorem cleanup_delete_leaves_child_session_witness:
  "findBySessionKey (sessions (subagentLife Delete)) ''subagent:r1'' \<noteq> None
   \<and> getRun (registry (subagentLife Delete)) ''r1'' = None"
  using cleanup_delete_leaves_child_session by blast

section \<open>Verification of the announce debounce (C6)\<close>

lemma showNat_small:
  "showNat 1 = ''1''" "showNat 2 = ''2''" "showNat (Suc 0) = ''1''" "showNat (Suc (Suc 0)) = ''2''"
  by code_simp+

lemmas announce_defs = simulate.simps applyEvent.simps fireTimers_def fireTimer_def
  drainQueue_def drainFinally_def enqueueAnnounce_def getOrCreateQueue_def clearTimeout_def
  DEBOUNCE_MS_def objDelete_def announceStart_def Let_def

lemmas message_defs = buildTriggerMessage_def buildCollectedTriggerMessage_def taskBlock_def
  outcomeStatus_def taskLabelOf_def durationText_def orElse_def truthy_def truthyInt_def
  formatDuration_def showInt_def enumerate_eq_zip Let_def

lemmas task_defs = taskA_def taskB_def taskB'_def completionOf_def

lemma task_keys:
  "apRequesterSessionKey taskA = ''telegram:7''" "apRequesterChannel taskA = ''telegram''"
  "apRequesterSessionKey taskB = ''telegram:7''" "apRequesterChannel taskB = ''telegram''"
  "apRequesterSessionKey taskB' = ''telegram:7''" "apRequesterChannel taskB' = ''telegram''"
  by (simp_all add: task_defs)

lemma withinWindow_calls: "triggerCalls withinWindow
     = [(''telegram:7'', ''telegram'',
         buildCollectedTriggerMessage
           [\<lparr>params = taskA, findings = ''a-done'', enqueuedAt = 1000\<rparr>,
            \<lparr>params = taskB, findings = ''b-done'', enqueuedAt = 2500\<rparr>])]"
  by (simp add: withinWindow_def announce_defs task_keys)

lemma apartQuick_calls: "triggerCalls apartQuick
     = [(''telegram:7'', ''telegram'', buildTriggerMessage taskA ''a-done''),
        (''telegram:7'', ''telegram'', buildTriggerMessage taskB' ''b-done'')]"
  by (simp add: apartQuick_def announce_defs task_keys)

lemma apartSlow_calls: "triggerCalls apartSlow
     = [(''telegram:7'', ''telegram'', buildTriggerMessage taskA ''a-done'')]
   \<and> timers apartSlow = []
   \<and> map fst (queues apartSlow) = [''telegram:7'']
   \<and> map_option (map findings \<circ> items) (map_of (queues apartSlow) ''telegram:7'')
       = Some [''b-done'']"
  by (simp add: apartSlow_def announce_defs task_keys)

lemma collected_message_of_two: "buildCollectedTriggerMessage
           [\<lparr>params = taskA, findings = ''a-done'', enqueuedAt = 1000\<rparr>,
            \<lparr>params = taskB, findings = ''b-done'', enqueuedAt = 2500\<rparr>]
   = joinLines
       [''[2 background tasks completed]'',
        [],
        ''Below are the results from multiple parallel tasks. Summarize them together for the user.'',
        ''Keep it concise and natural. Do not list them mechanically.'',
        [],
        ''--- Task 1: \"A\" (completed) ---'',
        ''a-done'',
        [],
        ''--- Task 2: \"B\" (completed) ---'',
        ''b-done'',
        [],
        ''Summarize all findings together in a natural, conversational way.'',
        ''If user asked for a comparison table, create one.'']"
  by (simp add: message_defs task_defs showNat_small del: showNat.simps)


lemma two_completions_within_window:
  assumes k: "apRequesterSessionKey b = apRequesterSessionKey a"
    and t: "t0 \<le> t1" "t1 < t0 + 2000" "t1 + 2000 \<le> tEnd"
  shows "triggerCalls (simulate [(t0, Completion a fa), (t1, Completion b fb)] tEnd announceStart)
     = [(apRequesterSessionKey a, apRequesterChannel b,
         buildCollectedTriggerMessage
           [\<lparr>params = a, findings = fa, enqueuedAt = t0\<rparr>,
            \<lparr>params = b, findings = fb, enqueuedAt = t1\<rparr>])]"
  using assms by (simp add: announce_defs)

lemma two_completions_apart:
  assumes k: "apRequesterSessionKey b = apRequesterSessionKey a"
    and t: "t0 + 2000 \<le> r" "r \<le> t1" "t1 + 2000 \<le> tEnd"
  shows "triggerCalls (simulate [(t0, Completion a fa),
            (r, TriggerReturned (apRequesterSessionKey a)), (t1, Completion b fb)] tEnd announceStart)
     = [(apRequesterSessionKey a, apRequesterChannel a, buildTriggerMessage a fa),
        (apRequesterSessionKey a, apRequesterChannel b, buildTriggerMessage b fb)]"
  using assms by (simp add: announce_defs)

lemma second_completion_stranded:
  assumes k: "apRequesterSessionKey b = apRequesterSessionKey a"
    and t: "t0 + 2000 \<le> t1" "t1 + 2000 < r" "r \<le> tEnd"
  shows "triggerCalls (simulate [(t0, Completion a fa), (t1, Completion b fb),
            (r, TriggerReturned (apRequesterSessionKey a))] tEnd announceStart)
     = [(apRequesterSessionKey a, apRequesterChannel a, buildTriggerMessage a fa)]"
  using assms by (simp add: announce_defs)

lemma two_completions_apart_late_return:
  assumes k: "apRequesterSessionKey b = apRequesterSessionKey a"
    and t: "t0 + 2000 \<le> t1" "t1 \<le> r" "r < t1 + 2000" "t1 + 2000 \<le> tEnd"
  shows "triggerCalls (simulate [(t0, Completion a fa), (t1, Completion b fb),
            (r, TriggerReturned (apRequesterSessionKey a))] tEnd announceStart)
     = [(apRequesterSessionKey a, apRequesterChannel a, buildTriggerMessage a fa),
        (apRequesterSessionKey a, apRequesterChannel b, buildTriggerMessage b fb)]"
  using assms by (simp add: announce_defs)

text \<open>
  Claim C6, at the failing input.  Two completions for \<open>telegram:7\<close> 1500 ms apart give
  one \<open>triggerAgent\<close> call with the collected message, headed
  \<open>[2 background tasks completed]\<close>, the blocks in completion order; 3000 ms apart, with
  the first call back before the second timer fires, they give two single-trigger calls.
  But 3000 ms apart with the first call still awaited when the second timer fires (the
  call runs a whole turn of the parent agent and returns at 10000 ms), the second timer
  finds \<open>draining\<close> set and returns: only one call is ever made, no timer is left, and
  the second completion stays in the queue.
\<close>

theorem slow_trigger_strands_second_completion:
  "triggerCalls withinWindow
     = [(''telegram:7'', ''telegram'',
         joinLines
           [''[2 background tasks completed]'',
            [],
            ''Below are the results from multiple parallel tasks. Summarize them together for the user.'',
            ''Keep it concise and natural. Do not list them mechanically.'',
            [],
            ''--- Task 1: \"A\" (completed) ---'',
            ''a-done'',
            [],
            ''--- Task 2: \"B\" (completed) ---'',
            ''b-done'',
            [],
            ''Summarize all findings together in a natural, conversational way.'',
            ''If user asked for a comparison table, create one.''])]
   \<and> triggerCalls apartQuick
     = [(''telegram:7'', ''telegram'', buildTriggerMessage taskA ''a-done''),
        (''telegram:7'', ''telegram'', buildTriggerMessage taskB' ''b-done'')]
   \<and> triggerCalls apartSlow
     = [(''telegram:7'', ''telegram'', buildTriggerMessage taskA ''a-done'')]
   \<and> timers apartSlow = []
   \<and> map_option (map findings \<circ> items) (map_of (queues apartSlow) ''telegram:7'')
       = Some [''b-done'']"
proof (intro conjI)
  show "triggerCalls withinWindow
     = [(''telegram:7'', ''telegram'',
         joinLines
           [''[2 background tasks completed]'',
            [],
            ''Below are the results from multiple parallel tasks. Summarize them together for the user.'',
            ''Keep it concise and natural. Do not list them mechanically.'',
            [],
            ''--- Task 1: \"A\" (completed) ---'',
            ''a-done'',
            [],
            ''--- Task 2: \"B\" (completed) ---'',
            ''b-done'',
            [],
            ''Summarize all findings together in a natural, conversational way.'',
            ''If user asked for a comparison table, create one.''])]"
    by (simp only: withinWindow_calls collected_message_of_two)
  show "triggerCalls apartQuick
     = [(''telegram:7'', ''telegram'', buildTriggerMessage taskA ''a-done''),
        (''telegram:7'', ''telegram'', buildTriggerMessage taskB' ''b-done'')]"
    by (rule apartQuick_calls)
  show "triggerCalls apartSlow
     = [(''telegram:7'', ''telegram'', buildTriggerMessage taskA ''a-done'')]"
    by (rule apartSlow_calls[THEN conjunct1])
  show "timers apartSlow = []"
    by (rule apartSlow_calls[THEN conjunct2, THEN conjunct1])
  show "map_option (map findings \<circ> items) (map_of (queues apartSlow) ''telegram:7'')
       = Some [''b-done'']"
    by (rule apartSlow_calls[THEN conjunct2, THEN conjunct2, THEN conjunct2])
qed

theorem slow_trigger_strands_second_completion_witness:
  "triggerCalls apartSlow
     = [(''telegram:7'', ''telegram'', buildTriggerMessage taskA ''a-done'')]"
  by (rule slow_trigger_strands_second_completion
        [THEN conjunct2, THEN conjunct2, THEN conjunct1])

end
